theory Spec2Isabelle
  imports Main "HOL-Library.Word" "HOL-Library.Char_ord" "HOL-Library.List_Lexorder"
begin

section \<open>Sorted keyed map (\<^verbatim>\<open>arpc::flat_map\<close>)\<close>

text \<open>
  Modelled from the spec: \<^verbatim>\<open>arpc/container/flat_map.h\<close> is not among the sources (only its
  test \<^verbatim>\<open>flat_map_test.cpp\<close> and its users \<^verbatim>\<open>client.h\<close> and \<^verbatim>\<open>context.h\<close> are). The
  spec describes it as a contiguous array of pairs sorted by key, searched by binary
  search, whose iterators are indices into the array. The array is a list, an iterator
  is an index, \<^verbatim>\<open>end()\<close> is the length.
\<close>

type_synonym ('k, 'v) flat_map = "('k \<times> 'v) list"

text \<open>
  Modelled from the spec: the binary search of \<^verbatim>\<open>lower_bound\<close> (flat_map.h is absent),
  over the half-open index range \<open>[first, first + count)\<close>: the first position whose
  key is not below \<open>k\<close>.
\<close>

function lower_bound_loop :: "('k::linorder, 'v) flat_map \<Rightarrow> 'k \<Rightarrow> nat \<Rightarrow> nat \<Rightarrow> nat" where
  "lower_bound_loop m k first count =
     (if count = 0 then first
      else if fst (m ! (first + count div 2)) < k
        then lower_bound_loop m k (first + count div 2 + 1) (count - (count div 2 + 1))
        else lower_bound_loop m k first (count div 2))"
  by pat_completeness auto
termination
  by (relation "measure (\<lambda>(m, k, first, count). count)") auto

declare lower_bound_loop.simps [simp del]

text \<open>
  Modelled from the spec: the binary search of \<^verbatim>\<open>upper_bound\<close> (flat_map.h is absent):
  the first position whose key is above \<open>k\<close>.
\<close>

function upper_bound_loop :: "('k::linorder, 'v) flat_map \<Rightarrow> 'k \<Rightarrow> nat \<Rightarrow> nat \<Rightarrow> nat" where
  "upper_bound_loop m k first count =
     (if count = 0 then first
      else if \<not> k < fst (m ! (first + count div 2))
        then upper_bound_loop m k (first + count div 2 + 1) (count - (count div 2 + 1))
        else upper_bound_loop m k first (count div 2))"
  by pat_completeness auto
termination
  by (relation "measure (\<lambda>(m, k, first, count). count)") auto

declare upper_bound_loop.simps [simp del]

text \<open>Modelled from the spec: \<^verbatim>\<open>flat_map::lower_bound\<close> (flat_map.h is absent), over the whole array.\<close>

definition lower_bound :: "('k::linorder, 'v) flat_map \<Rightarrow> 'k \<Rightarrow> nat" where
  "lower_bound m k = lower_bound_loop m k 0 (length m)"

text \<open>Modelled from the spec: \<^verbatim>\<open>flat_map::upper_bound\<close> (flat_map.h is absent), over the whole array.\<close>

definition upper_bound :: "('k::linorder, 'v) flat_map \<Rightarrow> 'k \<Rightarrow> nat" where
  "upper_bound m k = upper_bound_loop m k 0 (length m)"

text \<open>Modelled from the spec: \<^verbatim>\<open>flat_map::equal_range\<close> (flat_map.h is absent), the pair of the two bounds.\<close>

definition equal_range :: "('k::linorder, 'v) flat_map \<Rightarrow> 'k \<Rightarrow> nat \<times> nat" where
  "equal_range m k = (lower_bound m k, upper_bound m k)"

text \<open>
  Modelled from the spec: \<^verbatim>\<open>flat_map::find\<close> (flat_map.h is absent): the index of the key,
  or \<^verbatim>\<open>end()\<close>.
\<close>

definition find_key :: "('k::linorder, 'v) flat_map \<Rightarrow> 'k \<Rightarrow> nat" where
  "find_key m k =
     (let it = lower_bound m k
      in if it \<noteq> length m \<and> \<not> k < fst (m ! it) then it else length m)"

text \<open>
  Modelled from the spec: \<^verbatim>\<open>flat_map::insert\<close> (flat_map.h is absent): the iterator to the
  element with that key and whether the pair was inserted; a present key keeps its value.
\<close>

definition insert_pair ::
  "('k::linorder, 'v) flat_map \<Rightarrow> 'k \<times> 'v \<Rightarrow> (nat \<times> bool) \<times> ('k, 'v) flat_map" where
  "insert_pair m p =
     (let it = lower_bound m (fst p)
      in if it = length m \<or> fst p < fst (m ! it)
         then ((it, True), take it m @ p # drop it m)
         else ((it, False), m))"

text \<open>
  Modelled from the spec: \<^verbatim>\<open>flat_map::operator[]\<close> (flat_map.h is absent). It inserts the
  default-constructed value \<open>dflt\<close> when the key is absent
  (\<^verbatim>\<open>send_request\<close> creates its entries so) and returns a reference to the mapped value:
  the position of the element, in the map as it is afterwards.
\<close>

definition subscript ::
  "('k::linorder, 'v) flat_map \<Rightarrow> 'k \<Rightarrow> 'v \<Rightarrow> nat \<times> ('k, 'v) flat_map" where
  "subscript m k dflt =
     (let r = insert_pair m (k, dflt)
      in (fst (fst r), snd r))"

text \<open>
  Modelled from the spec: \<^verbatim>\<open>flat_map::erase(iterator)\<close> (flat_map.h is absent); the iterator
  to the next element is the same index.
\<close>

definition erase_at :: "('k, 'v) flat_map \<Rightarrow> nat \<Rightarrow> ('k, 'v) flat_map" where
  "erase_at m it = take it m @ drop (Suc it) m"

text \<open>
  Modelled from the spec: \<^verbatim>\<open>flat_map::erase(key)\<close> (flat_map.h is absent): the number of
  elements removed and the map.
\<close>

definition erase_key :: "('k::linorder, 'v) flat_map \<Rightarrow> 'k \<Rightarrow> nat \<times> ('k, 'v) flat_map" where
  "erase_key m k =
     (let it = find_key m k in if it \<noteq> length m then (1, erase_at m it) else (0, m))"

text \<open>Modelled from the spec: \<^verbatim>\<open>flat_map::count\<close> (flat_map.h is absent).\<close>

definition count_key :: "('k::linorder, 'v) flat_map \<Rightarrow> 'k \<Rightarrow> nat" where
  "count_key m k = (if find_key m k \<noteq> length m then 1 else 0)"

text \<open>
  Modelled from the spec: a sequence of insertions (flat_map.h is absent), as the range
  \<^verbatim>\<open>insert\<close> makes.
\<close>

definition insert_all :: "('k::linorder, 'v) flat_map \<Rightarrow> ('k \<times> 'v) list \<Rightarrow> ('k, 'v) flat_map" where
  "insert_all m ps = fold (\<lambda>p acc. snd (insert_pair acc p)) ps m"

text \<open>Modelled from the spec: construction from an initializer list (flat_map.h is absent).\<close>

definition flat_map_of :: "('k::linorder \<times> 'v) list \<Rightarrow> ('k, 'v) flat_map" where
  "flat_map_of ps = insert_all [] ps"

text \<open>The reference sorted-array specification: linear counts over the keys.\<close>

definition ref_lower_bound :: "('k::linorder, 'v) flat_map \<Rightarrow> 'k \<Rightarrow> nat" where
  "ref_lower_bound m k = length (filter (\<lambda>p. fst p < k) m)"

definition ref_upper_bound :: "('k::linorder, 'v) flat_map \<Rightarrow> 'k \<Rightarrow> nat" where
  "ref_upper_bound m k = length (filter (\<lambda>p. \<not> k < fst p) m)"

text \<open>The representation invariant: keys strictly increasing (sorted and unique).\<close>

definition flat_map_inv :: "('k::linorder, 'v) flat_map \<Rightarrow> bool" where
  "flat_map_inv m \<longleftrightarrow> sorted_wrt (<) (map fst m)"

definition partition_point :: "('a \<Rightarrow> bool) \<Rightarrow> 'a list \<Rightarrow> nat \<Rightarrow> bool" where
  "partition_point P xs r \<longleftrightarrow>
     r \<le> length xs \<and> (\<forall>i<r. P (xs ! i)) \<and> (\<forall>i. r \<le> i \<and> i < length xs \<longrightarrow> \<not> P (xs ! i))"


section \<open>Awaitables (\<^verbatim>\<open>arpc/awaitable.h\<close>)\<close>

text \<open>
  Time points and durations are integers: a time point is its exact position on the
  system clock, counted in clock ticks, and \<open>tpm\<close> is the number of ticks in one
  millisecond (a million where the clock counts nanoseconds). Counts of milliseconds are
  integers too. \<^verbatim>\<open>duration_cast\<close> to milliseconds divides the count, rounding towards
  zero.
\<close>

type_synonym time_point = int
type_synonym milliseconds = int

definition duration_cast_ms :: "int \<Rightarrow> int \<Rightarrow> milliseconds" where
  "duration_cast_ms tpm d = (if d < 0 then - ((- d) div tpm) else d div tpm)"

text \<open>
  The data members \<^verbatim>\<open>fd_\<close>, \<^verbatim>\<open>for_write_\<close>, \<^verbatim>\<open>timeout_\<close> and \<^verbatim>\<open>for_polling_\<close> of an
  awaitable; the reaction starts as the function that does nothing.
\<close>

record awaitable =
  aw_fd :: int
  aw_for_write :: bool
  aw_timeout :: milliseconds
  aw_for_polling :: bool

definition awaitable_fd :: "int \<Rightarrow> bool \<Rightarrow> awaitable" where
  "awaitable_fd fd for_write =
     \<lparr>aw_fd = fd, aw_for_write = for_write, aw_timeout = - 1, aw_for_polling = False\<rparr>"

definition awaitable_timeout :: "milliseconds \<Rightarrow> bool \<Rightarrow> awaitable" where
  "awaitable_timeout t for_polling =
     \<lparr>aw_fd = - 1, aw_for_write = False, aw_timeout = t, aw_for_polling = for_polling\<rparr>"

definition timeout :: "int \<Rightarrow> int \<Rightarrow> awaitable" where
  "timeout tpm duration = awaitable_timeout (duration_cast_ms tpm duration) False"

definition polling :: "int \<Rightarrow> int \<Rightarrow> awaitable" where
  "polling tpm duration = awaitable_timeout (duration_cast_ms tpm duration) True"

text \<open>
  The tick count of a \<^verbatim>\<open>std::chrono\<close> duration is a signed 64-bit integer. C++ leaves a
  signed overflow undefined; the compiled arithmetic wraps around, which \<open>wrap64\<close> writes
  out. \<open>fits64\<close> is the range of such a count.
\<close>

definition wrap64 :: "int \<Rightarrow> int" where
  "wrap64 x = (x + 2 ^ 63) mod 2 ^ 64 - 2 ^ 63"

definition fits64 :: "int \<Rightarrow> bool" where
  "fits64 x \<longleftrightarrow> - (2 ^ 63) \<le> x \<and> x < 2 ^ 63"

text \<open>
  \<^verbatim>\<open>deadline(when)\<close>, with the reading \<open>now\<close> of \<^verbatim>\<open>system_clock::now()\<close>. Here \<open>when\<close> and
  \<open>now\<close> are the tick counts of the two time points, each in the duration type of its own
  time point. \<^verbatim>\<open>when - system_clock::now()\<close> converts both counts to the common duration
  type of the two, multiplying the count of \<open>when\<close> by \<open>kw\<close> and the count of \<open>now\<close> by
  \<open>kn\<close>, and subtracts, all on 64-bit counts; \<open>tpm\<close> ticks of the common type make a
  millisecond. With a nanosecond clock, \<open>kn = 1\<close> and \<open>tpm = 1000000\<close>, and \<open>kw\<close> is \<open>1\<close>
  for a time point in nanoseconds, \<open>1000000\<close> for one in milliseconds.
\<close>

definition deadline :: "int \<Rightarrow> int \<Rightarrow> int \<Rightarrow> time_point \<Rightarrow> time_point \<Rightarrow> awaitable" where
  "deadline tpm kw kn now when =
     (let delta = duration_cast_ms tpm (wrap64 (wrap64 (when * kw) - wrap64 (now * kn)))
      in awaitable_timeout (max 0 delta) False)"


section \<open>Execution context (\<^verbatim>\<open>arpc/context.h\<close>)\<close>

text \<open>
  A context value carries the name of its class and its contents. The keyed data of a
  context is a \<^verbatim>\<open>flat_map\<close> from portable class names to values.
\<close>

datatype dynamic_value = Dynamic (portable_class_name: string) (contents: string)

datatype ctx =
  Context (ctx_parent: "ctx option") (ctx_shield: bool) (ctx_cancelled: bool)
    (ctx_deadline: "time_point option") (ctx_data: "(string, dynamic_value) flat_map")

text \<open>
  Modelled from the spec: \<^verbatim>\<open>context.cc\<close> is not among the sources, so the member
  functions that \<^verbatim>\<open>context.h\<close> only declares follow section 4.2 of the spec:
  \<^item> a context is created as a child of a parent; the root has no parent;
  \<^item> \<^verbatim>\<open>cancel()\<close> sets the cancelled flag;
  \<^item> \<^verbatim>\<open>is_cancelled()\<close> is the flag, or (unless shielded) an ancestor's, or a deadline in
    the past;
  \<^item> \<^verbatim>\<open>set_deadline(t)\<close> records an absolute time, \<^verbatim>\<open>set_timeout(d)\<close> the time \<open>d\<close> from
    now; the effective deadline is the minimum of the context's own and its ancestors'
    (unless shielded);
  \<^item> \<^verbatim>\<open>deadline_left()\<close> is the remaining duration until the effective deadline, if any;
  \<^item> \<^verbatim>\<open>data()\<close> lists the keyed values, \<^verbatim>\<open>set_data\<close> stores a list of values under
    their portable class names.
\<close>

text \<open>Modelled from the spec: the root context that \<^verbatim>\<open>top()\<close> returns (context.cc is absent).\<close>

definition top_ctx :: ctx where
  "top_ctx = Context None False False None []"

text \<open>
  Modelled from the spec: the constructor (context.cc is absent): a child of \<open>parent\<close>, not
  cancelled, with no deadline of its own and no keyed data.
\<close>

definition new_context :: "ctx \<Rightarrow> bool \<Rightarrow> ctx" where
  "new_context parent shield = Context (Some parent) shield False None []"

text \<open>Modelled from the spec: \<^verbatim>\<open>cancel()\<close> (context.cc is absent) sets the cancelled flag.\<close>

definition cancel :: "ctx \<Rightarrow> ctx" where
  "cancel c = Context (ctx_parent c) (ctx_shield c) True (ctx_deadline c) (ctx_data c)"

text \<open>Modelled from the spec: the earlier of two optional deadlines (context.cc is absent).\<close>

definition min_deadline :: "time_point option \<Rightarrow> time_point option \<Rightarrow> time_point option" where
  "min_deadline a b =
     (case a of None \<Rightarrow> b | Some x \<Rightarrow> (case b of None \<Rightarrow> Some x | Some y \<Rightarrow> Some (min x y)))"

text \<open>
  Modelled from the spec: \<^verbatim>\<open>deadline()\<close> (context.cc is absent), the effective deadline: the
  earliest of the context's own and its ancestors', unless shielded.
\<close>

fun context_deadline :: "ctx \<Rightarrow> time_point option" where
  "context_deadline (Context p sh c d dt) =
     (if sh then d
      else min_deadline d (case p of None \<Rightarrow> None | Some q \<Rightarrow> context_deadline q))"

text \<open>
  Modelled from the spec: \<^verbatim>\<open>is_cancelled()\<close> (context.cc is absent): the flag, or a deadline
  in the past, or (unless shielded) the same of an ancestor.
\<close>

fun is_cancelled :: "time_point \<Rightarrow> ctx \<Rightarrow> bool" where
  "is_cancelled now (Context p sh c d dt) =
     (c \<or> (case d of None \<Rightarrow> False | Some t \<Rightarrow> t < now)
        \<or> (\<not> sh \<and> (case p of None \<Rightarrow> False | Some q \<Rightarrow> is_cancelled now q)))"

text \<open>
  Modelled from the spec: \<^verbatim>\<open>deadline_left()\<close> (context.cc is absent): the duration from now
  to the effective deadline, in milliseconds.
\<close>

definition deadline_left :: "int \<Rightarrow> time_point \<Rightarrow> ctx \<Rightarrow> milliseconds option" where
  "deadline_left tpm now c =
     (case context_deadline c of None \<Rightarrow> None | Some t \<Rightarrow> Some (duration_cast_ms tpm (t - now)))"

text \<open>Modelled from the spec: \<^verbatim>\<open>set_deadline\<close> (context.cc is absent) records an absolute time.\<close>

definition set_deadline :: "time_point \<Rightarrow> ctx \<Rightarrow> ctx" where
  "set_deadline when c = Context (ctx_parent c) (ctx_shield c) (ctx_cancelled c) (Some when) (ctx_data c)"

text \<open>Modelled from the spec: \<^verbatim>\<open>set_timeout\<close> (context.cc is absent) records the time \<open>d\<close> from now.\<close>

definition set_timeout :: "int \<Rightarrow> time_point \<Rightarrow> milliseconds \<Rightarrow> ctx \<Rightarrow> ctx" where
  "set_timeout tpm now d c = set_deadline (now + d * tpm) c"

text \<open>Modelled from the spec: \<^verbatim>\<open>data()\<close> (context.cc is absent) lists the keyed values in key order.\<close>

definition data :: "ctx \<Rightarrow> dynamic_value list" where
  "data c = map snd (ctx_data c)"

text \<open>
  Modelled from the spec: assignment through \<^verbatim>\<open>operator[]\<close> (flat_map.h is absent): storing
  a value under a key replaces the value stored there.
\<close>

definition assign_key :: "('k::linorder, 'v) flat_map \<Rightarrow> 'k \<Rightarrow> 'v \<Rightarrow> ('k, 'v) flat_map" where
  "assign_key m k v =
     (let r = insert_pair m (k, v)
      in if snd (fst r) then snd r else (snd r)[fst (fst r) := (k, v)])"

text \<open>
  Modelled from the spec: \<^verbatim>\<open>set_data\<close> (context.cc is absent) makes the keyed data the given
  values, each under its portable class name.
\<close>

definition set_data :: "dynamic_value list \<Rightarrow> ctx \<Rightarrow> ctx" where
  "set_data new_data c =
     Context (ctx_parent c) (ctx_shield c) (ctx_cancelled c) (ctx_deadline c)
       (fold (\<lambda>v m. assign_key m (portable_class_name v) v) new_data [])"

text \<open>The members that \<^verbatim>\<open>context.h\<close> defines.\<close>

definition set_one :: "dynamic_value \<Rightarrow> ctx \<Rightarrow> ctx" where
  "set_one t c =
     Context (ctx_parent c) (ctx_shield c) (ctx_cancelled c) (ctx_deadline c)
       (assign_key (ctx_data c) (portable_class_name t) t)"

definition reset_one :: "string \<Rightarrow> ctx \<Rightarrow> ctx" where
  "reset_one name c =
     Context (ctx_parent c) (ctx_shield c) (ctx_cancelled c) (ctx_deadline c) (snd (erase_key (ctx_data c) name))"

text \<open>
  \<^verbatim>\<open>get<T>()\<close>: \<open>name\<close> is \<^verbatim>\<open>portable_class_name<T>()\<close> and \<open>default_instance\<close> the
  function-local static of \<^verbatim>\<open>default_instance<T>()\<close>. The context is returned with the
  value, since the member function locks and reads it.
\<close>

definition get :: "string \<Rightarrow> dynamic_value \<Rightarrow> ctx \<Rightarrow> dynamic_value \<times> ctx" where
  "get name default_instance c =
     (let it = find_key (ctx_data c) name
      in if it \<noteq> length (ctx_data c) then (snd (ctx_data c ! it), c) else (default_instance, c))"

text \<open>\<^verbatim>\<open>save\<close> writes three values to the encoder; \<^verbatim>\<open>load\<close> reads them back and applies them.\<close>

type_synonym saved_context = "milliseconds option \<times> dynamic_value list \<times> bool"

definition save :: "int \<Rightarrow> time_point \<Rightarrow> ctx \<Rightarrow> saved_context" where
  "save tpm now c = (deadline_left tpm now c, data c, is_cancelled now c)"

definition load :: "int \<Rightarrow> time_point \<Rightarrow> saved_context \<Rightarrow> ctx \<Rightarrow> ctx" where
  "load tpm now d c =
     (let deadline_remaining = fst d;
          new_data = fst (snd d);
          cancelled = snd (snd d);
          c1 = (case deadline_remaining of None \<Rightarrow> c | Some t \<Rightarrow> set_timeout tpm now t c);
          c2 = set_data new_data c1
      in if cancelled then cancel c2 else c2)"

text \<open>The keyed data of a context: keys strictly increasing, each the class name of its value.\<close>

definition data_inv :: "ctx \<Rightarrow> bool" where
  "data_inv c \<longleftrightarrow>
     flat_map_inv (ctx_data c) \<and> list_all (\<lambda>p. fst p = portable_class_name (snd p)) (ctx_data c)"


section \<open>Client engine (\<^verbatim>\<open>arpc/client.h\<close>)\<close>

type_synonym byte = "8 word"
type_synonym bytes = "byte list"
type_synonym request_id_type = "32 word"

text \<open>
  Modelled from the spec: \<^verbatim>\<open>message_defs.h\<close>, \<^verbatim>\<open>errors.h\<close> and \<^verbatim>\<open>binary_codecs.h\<close> are not
  among the sources. The message kinds and the error kinds are the spec's closed sets
  (sections 3 and 7); the byte that encodes a message kind is a parameter \<open>tg\<close> of the
  functions that write or read one; a request id is four bytes, little-endian
  (section 6).
\<close>

text \<open>Modelled from the spec: the message kinds (message_defs.h is absent).\<close>

datatype message_type = REQUEST | RESPONSE | CANCEL_REQUEST

text \<open>Modelled from the spec: the error kinds and an exception with its message (errors.h is absent).\<close>

datatype error_kind =
  io_error | data_mismatch | deadline_exceeded | cancelled | try_again | not_connected
  | internal_error

datatype exn = Exn (kind: error_kind) (what: string)

text \<open>The tags of the message kinds in the order of their declaration, for the examples.\<close>

definition tag_in_order :: "message_type \<Rightarrow> byte" where
  "tag_in_order t = (case t of REQUEST \<Rightarrow> 0 | RESPONSE \<Rightarrow> 1 | CANCEL_REQUEST \<Rightarrow> 2)"

text \<open>
  Modelled from the spec: the encoder and decoder of a 32-bit unsigned integer, four bytes
  little-endian (binary_codecs.h is absent), and the failure of a decoder that runs out of
  input, which the spec counts as \<^verbatim>\<open>data_mismatch\<close>.
\<close>

definition encode_u32 :: "32 word \<Rightarrow> bytes" where
  "encode_u32 w = [ucast w, ucast (drop_bit 8 w), ucast (drop_bit 16 w), ucast (drop_bit 24 w)]"

fun decode_u32 :: "bytes \<Rightarrow> (32 word \<times> bytes) option" where
  "decode_u32 (b0 # b1 # b2 # b3 # rest) =
     Some (or (ucast b0) (or (push_bit 8 (ucast b1))
             (or (push_bit 16 (ucast b2)) (push_bit 24 (ucast b3)))), rest)"
| "decode_u32 _ = None"

definition decode_failure :: exn where
  "decode_failure = Exn data_mismatch []"

text \<open>
  Modelled from the spec: \<^verbatim>\<open>future.h\<close> is not among the sources. A promise and its future
  share one state, found by its number. The spec leaves open whether resolving a
  resolved promise is ignored or fatal, so the shared state keeps every resolution in
  the order made: the future's result is the first, and a state resolved once holds
  one.
\<close>

text \<open>Modelled from the spec: what a promise is resolved with (future.h is absent).\<close>

datatype outcome = Value bytes | Exception exn

type_synonym promise = nat
type_synonym shared_states = "nat \<Rightarrow> outcome list"

text \<open>Modelled from the spec: \<^verbatim>\<open>promise::set_value\<close>, \<^verbatim>\<open>promise::set_exception\<close> and the result a future sees (future.h is absent).\<close>

definition set_value :: "promise \<Rightarrow> bytes \<Rightarrow> shared_states \<Rightarrow> shared_states" where
  "set_value h v st = st(h := st h @ [Value v])"

definition set_exception :: "promise \<Rightarrow> exn \<Rightarrow> shared_states \<Rightarrow> shared_states" where
  "set_exception h e st = st(h := st h @ [Exception e])"

definition future_result :: "shared_states \<Rightarrow> promise \<Rightarrow> outcome option" where
  "future_result st h = (case st h of [] \<Rightarrow> None | x # _ \<Rightarrow> Some x)"

definition failure_kind :: "outcome \<Rightarrow> error_kind option" where
  "failure_kind r = (case r of Value v \<Rightarrow> None | Exception e \<Rightarrow> Some (kind e))"

text \<open>
  Modelled from the spec: \<^verbatim>\<open>queue.h\<close> is not among the sources. A bounded queue is the
  list of its elements, oldest first; \<^verbatim>\<open>maybe_put\<close> on a full queue raises
  \<^verbatim>\<open>try_again\<close>, which is the result \<open>None\<close>.
\<close>

definition maybe_put :: "nat \<Rightarrow> 'a \<Rightarrow> 'a list \<Rightarrow> 'a list option" where
  "maybe_put capacity x q = (if length q < capacity then Some (q @ [x]) else None)"

record pending_request =
  pr_deadline :: "time_point option"
  pr_result :: promise

text \<open>
  Modelled from the spec: \<^verbatim>\<open>connection.h\<close> and \<^verbatim>\<open>packet_protocols.h\<close> are not among the
  sources. The connection is disconnected, connecting or connected; \<open>wire\<close> lists the
  frames it has written. What the network does to one attempt is an input: the error
  \<^verbatim>\<open>connect()\<close> would raise if it had to open a channel, and the error sending a
  frame would raise.
\<close>

datatype connection_state = disconnected | connecting | connected

record io_outcome =
  connect_error :: "exn option"
  send_error :: "exn option"

text \<open>
  The data members of \<^verbatim>\<open>client_connection\<close> (\<^verbatim>\<open>sequence_\<close>, \<^verbatim>\<open>ready_\<close>, \<^verbatim>\<open>connection_\<close>,
  \<^verbatim>\<open>pending_\<close>, \<^verbatim>\<open>new_deadline_\<close>, \<^verbatim>\<open>cancelled_requests_\<close>), its template parameter
  \<^verbatim>\<open>max_queued_events\<close>, the frames written, and the shared states of the promises with
  the number of the next one to be made. Each definition below is one step of one
  thread; \<^verbatim>\<open>send_request\<close> and \<^verbatim>\<open>async_call\<close>, which take the locks in turn and hold none
  in between, come after the steps of the other threads.
\<close>

record client_connection =
  max_queued_events :: nat
  sequence :: request_id_type
  ready :: bool
  connection :: connection_state
  wire :: "bytes list"
  pending :: "(request_id_type, pending_request) flat_map"
  new_deadline :: "unit list"
  cancelled_requests :: "request_id_type list"
  promises :: shared_states
  next_promise :: nat

definition new_client_connection :: "nat \<Rightarrow> client_connection" where
  "new_client_connection n =
     \<lparr>max_queued_events = n, sequence = 0, ready = False, connection = disconnected,
      wire = [], pending = [], new_deadline = [], cancelled_requests = [],
      promises = (\<lambda>h. []), next_promise = 0\<rparr>"

text \<open>
  Modelled from the spec: \<^verbatim>\<open>connect()\<close>, \<^verbatim>\<open>send()\<close> and \<^verbatim>\<open>disconnect()\<close> of the reconnectable
  packet connection (connection.h is absent). Connecting when connected does nothing; a
  failed attempt leaves the connection disconnected and raises.
\<close>

definition connection_connect :: "io_outcome \<Rightarrow> client_connection \<Rightarrow> exn + client_connection" where
  "connection_connect io s =
     (if connection s = connected then Inr s
      else (case connect_error io of
              Some e \<Rightarrow> Inl e
            | None \<Rightarrow> Inr (s\<lparr>connection := connected\<rparr>)))"

definition connection_send ::
  "io_outcome \<Rightarrow> bytes \<Rightarrow> client_connection \<Rightarrow> exn + client_connection" where
  "connection_send io frame s =
     (case send_error io of
        Some e \<Rightarrow> Inl e
      | None \<Rightarrow> Inr (s\<lparr>wire := wire s @ [frame]\<rparr>))"

definition connection_disconnect :: "client_connection \<Rightarrow> client_connection" where
  "connection_disconnect s = s\<lparr>connection := disconnected\<rparr>"

definition abandon_request :: "request_id_type \<Rightarrow> client_connection \<Rightarrow> client_connection" where
  "abandon_request req_id s =
     (let it = find_key (pending s) req_id
      in if it \<noteq> length (pending s)
         then s\<lparr>promises :=
                  set_exception (pr_result (snd (pending s ! it)))
                    (Exn cancelled ''Request cancelled'') (promises s),
                pending := erase_at (pending s) it\<rparr>
         else s)"

definition cancel_request :: "request_id_type \<Rightarrow> client_connection \<Rightarrow> client_connection" where
  "cancel_request req_id s =
     (let s1 = abandon_request req_id s
      in (case maybe_put (max_queued_events s1) req_id (cancelled_requests s1) of
            Some q \<Rightarrow> s1\<lparr>cancelled_requests := q\<rparr>
          | None \<Rightarrow> s1))"

definition expired :: "time_point \<Rightarrow> pending_request \<Rightarrow> bool" where
  "expired now p = (case pr_deadline p of None \<Rightarrow> False | Some d \<Rightarrow> d < now)"

text \<open>The loop of \<^verbatim>\<open>gc\<close>: \<open>it\<close> is the iterator, which never passes \<^verbatim>\<open>end()\<close>.\<close>

function gc_loop ::
  "time_point \<Rightarrow> nat \<Rightarrow> (request_id_type, pending_request) flat_map \<Rightarrow> shared_states
     \<Rightarrow> (request_id_type, pending_request) flat_map \<times> shared_states" where
  "gc_loop now it m st =
     (if it < length m
      then if expired now (snd (m ! it))
           then gc_loop now it (erase_at m it)
                  (set_exception (pr_result (snd (m ! it)))
                     (Exn deadline_exceeded ''Request timed out'') st)
           else gc_loop now (it + 1) m st
      else (m, st))"
  by pat_completeness auto
termination
  by (relation "measure (\<lambda>(now, it, m, st). length m - it)") (auto simp: erase_at_def)

declare gc_loop.simps [simp del]

definition gc :: "time_point \<Rightarrow> client_connection \<Rightarrow> client_connection" where
  "gc now s =
     (let r = gc_loop now 0 (pending s) (promises s)
      in s\<lparr>pending := fst r, promises := snd r\<rparr>)"

definition new_request_id :: "client_connection \<Rightarrow> request_id_type \<times> client_connection" where
  "new_request_id s = (sequence s, s\<lparr>sequence := sequence s + 1\<rparr>)"

definition set_response ::
  "request_id_type \<Rightarrow> bytes \<Rightarrow> client_connection \<Rightarrow> client_connection" where
  "set_response req_id response s =
     (let it = find_key (pending s) req_id
      in if it \<noteq> length (pending s)
         then s\<lparr>promises := set_value (pr_result (snd (pending s ! it))) response (promises s),
                pending := erase_at (pending s) it\<rparr>
         else s)"

definition broadcast_exception :: "exn \<Rightarrow> client_connection \<Rightarrow> client_connection" where
  "broadcast_exception exc s =
     s\<lparr>promises := fold (\<lambda>p st. set_exception (pr_result (snd p)) exc st) (pending s) (promises s),
       pending := []\<rparr>"

text \<open>\<^verbatim>\<open>send\<close>: the exception that leaves it, if any, and the state.\<close>

definition send :: "io_outcome \<Rightarrow> bytes \<Rightarrow> client_connection \<Rightarrow> exn option \<times> client_connection" where
  "send io frame s =
     (case connection_connect io s of
        Inl e \<Rightarrow> (Some e, connection_disconnect (s\<lparr>ready := False\<rparr>))
      | Inr s1 \<Rightarrow>
          (case connection_send io frame s1 of
             Inl e \<Rightarrow> (Some e, connection_disconnect (s1\<lparr>ready := False\<rparr>))
           | Inr s2 \<Rightarrow> (None, s2\<lparr>ready := True\<rparr>)))"

text \<open>The exception \<^verbatim>\<open>send\<close> meets in a state, given what the network does.\<close>

definition send_exception :: "io_outcome \<Rightarrow> client_connection \<Rightarrow> exn option" where
  "send_exception io s =
     (if connection s \<noteq> connected \<and> connect_error io \<noteq> None then connect_error io
      else send_error io)"

text \<open>
  The block of \<^verbatim>\<open>send_request\<close> under \<^verbatim>\<open>pending_mu_\<close>: it finds or creates the entry of
  \<open>req_id\<close>, whose promise when created is the next one to be made, stores the deadline
  \<open>dl\<close> (which is \<^verbatim>\<open>context::current().deadline()\<close>) and rings the doorbell when there is
  one, a full doorbell queue being ignored; it gives the future of the entry's promise.
\<close>

definition register_request ::
  "time_point option \<Rightarrow> request_id_type \<Rightarrow> client_connection \<Rightarrow> promise \<times> client_connection" where
  "register_request dl req_id s =
     (let absent = (find_key (pending s) req_id = length (pending s));
          r = subscript (pending s) req_id \<lparr>pr_deadline = None, pr_result = next_promise s\<rparr>;
          it = fst r;
          entry = (snd (snd r ! it))\<lparr>pr_deadline := dl\<rparr>
      in (pr_result entry,
          s\<lparr>pending := (snd r)[it := (req_id, entry)],
            next_promise := (if absent then Suc (next_promise s) else next_promise s),
            new_deadline :=
              (if dl \<noteq> None
               then (case maybe_put (max_queued_events s) () (new_deadline s) of
                       Some q \<Rightarrow> q
                     | None \<Rightarrow> new_deadline s)
               else new_deadline s)\<rparr>))"

text \<open>
  The receiver: what the body of the inner loop does with one packet read, and the
  whole step with its handler, where \<open>input\<close> is the packet \<^verbatim>\<open>connection_.receive()\<close>
  returned or the exception it raised.
\<close>

definition receive_packet ::
  "(message_type \<Rightarrow> byte) \<Rightarrow> bytes \<Rightarrow> client_connection \<Rightarrow> exn + client_connection" where
  "receive_packet tg response s =
     (case response of
        [] \<Rightarrow> Inl decode_failure
      | b # rest \<Rightarrow>
          if b = tg RESPONSE
          then (case decode_u32 rest of
                  None \<Rightarrow> Inl decode_failure
                | Some (req_id, payload) \<Rightarrow> Inr (set_response req_id payload s))
          else Inl (Exn data_mismatch ''Received unknown message type''))"

definition receive_step ::
  "(message_type \<Rightarrow> byte) \<Rightarrow> exn + bytes \<Rightarrow> client_connection \<Rightarrow> client_connection" where
  "receive_step tg input s =
     (case (case input of Inl e \<Rightarrow> Inl e | Inr response \<Rightarrow> receive_packet tg response s) of
        Inr s' \<Rightarrow> s'
      | Inl exc \<Rightarrow> broadcast_exception exc (connection_disconnect (s\<lparr>ready := False\<rparr>)))"

definition get_earliest_deadline :: "client_connection \<Rightarrow> time_point option" where
  "get_earliest_deadline s =
     fold (\<lambda>p earliest.
            (case pr_deadline (snd p) of
               None \<Rightarrow> earliest
             | Some d \<Rightarrow> (case earliest of None \<Rightarrow> Some d | Some e \<Rightarrow> Some (min e d))))
       (pending s) None"

text \<open>
  Modelled from the spec: which of its three awaitables \<^verbatim>\<open>select\<close> reports to the handler
  (select.h is absent): the doorbell queue, the queue of cancelled requests, or the
  deadline timer.
\<close>

datatype select_branch = New_deadline_added | Cancelled_request | Time_to_do_gc

text \<open>The frame the handler encodes for a cancelled request: the message kind and the id.\<close>

definition cancel_frame :: "(message_type \<Rightarrow> byte) \<Rightarrow> request_id_type \<Rightarrow> bytes" where
  "cancel_frame tg req_id = tg CANCEL_REQUEST # encode_u32 req_id"

text \<open>
  One turn of the loop of \<^verbatim>\<open>handle_timeouts_and_cancellations\<close>, for the branch that
  \<^verbatim>\<open>select\<close> reports. A queue's awaitable takes the oldest element of the queue; the timer
  runs only when some entry has a deadline; a branch that cannot fire in this state gives
  \<open>None\<close>. The exception of a failed send is dropped.
\<close>

definition handle_timeouts_and_cancellations ::
  "(message_type \<Rightarrow> byte) \<Rightarrow> io_outcome \<Rightarrow> time_point \<Rightarrow> select_branch \<Rightarrow> client_connection
     \<Rightarrow> client_connection option" where
  "handle_timeouts_and_cancellations tg io now branch s =
     (case branch of
        New_deadline_added \<Rightarrow>
          (case new_deadline s of
             [] \<Rightarrow> None
           | u # q \<Rightarrow> Some (s\<lparr>new_deadline := q\<rparr>))
      | Cancelled_request \<Rightarrow>
          (case cancelled_requests s of
             [] \<Rightarrow> None
           | req_id # q \<Rightarrow>
               Some (snd (send io (cancel_frame tg req_id) (s\<lparr>cancelled_requests := q\<rparr>))))
      | Time_to_do_gc \<Rightarrow>
          (case get_earliest_deadline s of
             None \<Rightarrow> None
           | Some d \<Rightarrow> Some (gc now s)))"

text \<open>The handler taking every queued cancellation in turn, the network failing none.\<close>

definition io_ok :: io_outcome where
  "io_ok = \<lparr>connect_error = None, send_error = None\<rparr>"


text \<open>
  The invariant of the pending map: keys strictly increasing, every entry with a promise
  of its own, made before and not yet resolved; and no promise still to be made is
  resolved.
\<close>

definition pending_inv :: "client_connection \<Rightarrow> bool" where
  "pending_inv s \<longleftrightarrow>
     flat_map_inv (pending s)
     \<and> distinct (map (\<lambda>p. pr_result (snd p)) (pending s))
     \<and> list_all (\<lambda>p. promises s (pr_result (snd p)) = [] \<and> pr_result (snd p) < next_promise s)
         (pending s)
     \<and> (\<forall>h. next_promise s \<le> h \<longrightarrow> promises s h = [])"

text \<open>The promises of the pending entries.\<close>

definition pending_promises :: "client_connection \<Rightarrow> promise set" where
  "pending_promises s = (\<lambda>p. pr_result (snd p)) ` set (pending s)"

text \<open>The four operations that resolve the promise of a pending entry.\<close>

datatype resolving_op =
  Set_response request_id_type bytes
  | Gc time_point
  | Abandon_request request_id_type
  | Broadcast_exception exn

fun resolve :: "resolving_op \<Rightarrow> client_connection \<Rightarrow> client_connection" where
  "resolve (Set_response req_id response) s = set_response req_id response s"
| "resolve (Gc now) s = gc now s"
| "resolve (Abandon_request req_id) s = abandon_request req_id s"
| "resolve (Broadcast_exception exc) s = broadcast_exception exc s"

definition resolved_once :: "client_connection \<Rightarrow> bool" where
  "resolved_once s \<longleftrightarrow> (\<forall>h. length (promises s h) \<le> 1)"

text \<open>
  What holds of the promise \<open>h\<close> made for the request \<open>req_id\<close> from its registration on,
  whatever the threads do: it has been made, only an entry of \<open>req_id\<close> holds it, and it
  is held by a pending entry or has been resolved exactly once.
\<close>

definition tracked :: "request_id_type \<Rightarrow> promise \<Rightarrow> client_connection \<Rightarrow> bool" where
  "tracked req_id h s \<longleftrightarrow>
     h < next_promise s
     \<and> (\<forall>p\<in>set (pending s). pr_result (snd p) = h \<longrightarrow> fst p = req_id)
     \<and> (h \<in> pending_promises s \<or> length (promises s h) = 1)"

text \<open>Allocating \<open>n\<close> request ids in a row.\<close>

fun new_request_ids :: "nat \<Rightarrow> client_connection \<Rightarrow> request_id_type list \<times> client_connection" where
  "new_request_ids 0 s = ([], s)"
| "new_request_ids (Suc n) s =
     (let r = new_request_id s; rs = new_request_ids n (snd r)
      in (fst r # fst rs, snd rs))"

text \<open>
  What the other threads of a connection do while a call holds no lock is a list of
  steps. A step is a whole turn of the receiver, for what \<^verbatim>\<open>connection_.receive()\<close> gave,
  or of the handler, for a branch of its \<^verbatim>\<open>select\<close>, or one stretch under a lock: one of
  the four resolving operations, the receiver dropping the ready flag and disconnecting
  before it broadcasts, a caller allocating an id, registering a request, sending a
  frame or cancelling a request, and the queueing of a cancelled id alone.
\<close>

datatype engine_step =
  Receiver "exn + bytes"
  | Handler io_outcome time_point select_branch
  | Resolves resolving_op
  | Disconnects
  | Caller_new_request_id
  | Caller_register "time_point option" request_id_type
  | Caller_send io_outcome bytes
  | Caller_cancel request_id_type
  | Queues_cancelled request_id_type

fun step :: "(message_type \<Rightarrow> byte) \<Rightarrow> engine_step \<Rightarrow> client_connection \<Rightarrow> client_connection" where
  "step tg (Receiver input) s = receive_step tg input s"
| "step tg (Handler io now branch) s =
     (case handle_timeouts_and_cancellations tg io now branch s of None \<Rightarrow> s | Some s' \<Rightarrow> s')"
| "step tg (Resolves op) s = resolve op s"
| "step tg Disconnects s = connection_disconnect (s\<lparr>ready := False\<rparr>)"
| "step tg Caller_new_request_id s = snd (new_request_id s)"
| "step tg (Caller_register dl req_id) s = snd (register_request dl req_id s)"
| "step tg (Caller_send io frame) s = snd (send io frame s)"
| "step tg (Caller_cancel req_id) s = cancel_request req_id s"
| "step tg (Queues_cancelled req_id) s =
     (case maybe_put (max_queued_events s) req_id (cancelled_requests s) of
        Some q \<Rightarrow> s\<lparr>cancelled_requests := q\<rparr>
      | None \<Rightarrow> s)"

definition steps ::
  "(message_type \<Rightarrow> byte) \<Rightarrow> engine_step list \<Rightarrow> client_connection \<Rightarrow> client_connection" where
  "steps tg others s = fold (step tg) others s"

text \<open>
  \<^verbatim>\<open>send_request\<close>: the block under \<^verbatim>\<open>pending_mu_\<close>, then \<^verbatim>\<open>send\<close> under \<^verbatim>\<open>sending_mu_\<close>,
  then, in the handler of a failed send, \<^verbatim>\<open>abandon_request\<close> under \<^verbatim>\<open>pending_mu_\<close> again.
  No lock is held between the three, so the other threads run there: \<open>before_send\<close>
  lists their steps between the registration and the send, \<open>before_abandon\<close> their steps
  between the failed send and \<^verbatim>\<open>abandon_request\<close>. The result is the future (the number
  of its shared state) or the exception raised.
\<close>

definition send_request ::
  "(message_type \<Rightarrow> byte) \<Rightarrow> time_point option \<Rightarrow> io_outcome \<Rightarrow> request_id_type \<Rightarrow> bytes
     \<Rightarrow> engine_step list \<Rightarrow> engine_step list \<Rightarrow> client_connection
     \<Rightarrow> (exn + promise) \<times> client_connection" where
  "send_request tg dl io req_id request before_send before_abandon s =
     (let r = register_request dl req_id s
      in (case send io request (steps tg before_send (snd r)) of
            (None, s2) \<Rightarrow> (Inr (fst r), s2)
          | (Some e, s2) \<Rightarrow>
              (Inl e, abandon_request req_id (steps tg before_abandon s2))))"

text \<open>
  \<^verbatim>\<open>async_call\<close>: \<open>body\<close> is what the method and argument encoders write after the
  header, and \<open>before_register\<close> lists the steps of the other threads between the
  allocation of the id and \<^verbatim>\<open>send_request\<close>. The result is the future with the request
  id, or the exception raised.
\<close>

definition async_call ::
  "(message_type \<Rightarrow> byte) \<Rightarrow> time_point option \<Rightarrow> io_outcome \<Rightarrow> bytes
     \<Rightarrow> engine_step list \<Rightarrow> engine_step list \<Rightarrow> engine_step list \<Rightarrow> client_connection
     \<Rightarrow> (exn + promise \<times> request_id_type) \<times> client_connection" where
  "async_call tg dl io body before_register before_send before_abandon s =
     (let r = new_request_id s;
          req_id = fst r;
          request = tg REQUEST # encode_u32 req_id @ body
      in (case send_request tg dl io req_id request before_send before_abandon
                 (steps tg before_register (snd r)) of
            (Inl e, s') \<Rightarrow> (Inl e, s')
          | (Inr fut, s') \<Rightarrow> (Inr (fut, req_id), s')))"


section \<open>Example states\<close>

text \<open>
  Three calls on a new connection, all sent with no other thread running: request 0 with a deadline at 10, request 1
  with none, request 2 with a deadline at 30.
\<close>

definition three_calls :: client_connection where
  "three_calls =
     snd (async_call tag_in_order (Some 30) io_ok [3] [] [] []
       (snd (async_call tag_in_order None io_ok [2] [] [] []
         (snd (async_call tag_in_order (Some 10) io_ok [1] [] [] []
           (new_client_connection 256))))))"

text \<open>A sequence of the four resolving operations.\<close>

definition six_resolutions :: "resolving_op list" where
  "six_resolutions =
     [Gc 20, Set_response 1 [42], Abandon_request 0, Set_response 1 [43],
      Broadcast_exception (Exn io_error ''Connection reset''), Gc 40]"

text \<open>A network on which sending a frame fails.\<close>

definition broken_pipe :: io_outcome where
  "broken_pipe = \<lparr>connect_error = None, send_error = Some (Exn io_error ''Broken pipe'')\<rparr>"

text \<open>The receiver finding the connection reset.\<close>

definition connection_reset :: "engine_step list" where
  "connection_reset = [Receiver (Inl (Exn io_error ''Connection reset''))]"



section \<open>Properties of the sorted keyed map\<close>

lemma partition_point_filter:
  assumes "partition_point P xs r"
  shows "filter P xs = take r xs"
proof -
  have a: "\<forall>x\<in>set (take r xs). P x"
    using assms by (auto simp: partition_point_def in_set_conv_nth)
  have b: "\<forall>x\<in>set (drop r xs). \<not> P x"
    using assms by (auto simp: partition_point_def in_set_conv_nth)
  have "filter P xs = filter P (take r xs) @ filter P (drop r xs)"
    by (metis append_take_drop_id filter_append)
  also have "\<dots> = take r xs" using a b by simp
  finally show ?thesis .
qed

lemma partition_point_length:
  "partition_point P xs r \<Longrightarrow> r = length (filter P xs)"
  by (simp add: partition_point_filter) (simp add: partition_point_def)

lemma flat_map_inv_mono:
  assumes "flat_map_inv m" "i \<le> j" "j < length m"
  shows "fst (m ! i) \<le> fst (m ! j)"
proof (cases "i = j")
  case True then show ?thesis by simp
next
  case False
  then have "i < j" using assms(2) by simp
  then show ?thesis
    using sorted_wrt_nth_less[of "(<)" "map fst m" i j] assms(1,3)
    unfolding flat_map_inv_def by simp
qed

lemma flat_map_inv_strict:
  assumes "flat_map_inv m" "i < j" "j < length m"
  shows "fst (m ! i) < fst (m ! j)"
  using sorted_wrt_nth_less[of "(<)" "map fst m" i j] assms
  unfolding flat_map_inv_def by simp

lemma lower_bound_loop_point:
  assumes "flat_map_inv m" "first + count \<le> length m"
    "\<forall>i<first. fst (m ! i) < k" "\<forall>i. first + count \<le> i \<and> i < length m \<longrightarrow> \<not> fst (m ! i) < k"
  shows "partition_point (\<lambda>p. fst p < k) m (lower_bound_loop m k first count)"
  using assms
proof (induction m k first count rule: lower_bound_loop.induct)
  case (1 m k first count)
  let ?mid = "first + count div 2"
  show ?case
  proof (cases "count = 0")
    case True
    then show ?thesis using "1.prems"
      by (simp add: lower_bound_loop.simps partition_point_def)
  next
    case False
    then have mid: "?mid < length m" "?mid < first + count" using "1.prems"(2) by auto
    show ?thesis
    proof (cases "fst (m ! ?mid) < k")
      case True
      have lo: "\<forall>i<?mid + 1. fst (m ! i) < k"
      proof (intro allI impI)
        fix i assume "i < ?mid + 1"
        then have "fst (m ! i) \<le> fst (m ! ?mid)"
          using flat_map_inv_mono[OF "1.prems"(1), of i ?mid] mid by simp
        then show "fst (m ! i) < k" using True by simp
      qed
      have eq: "?mid + 1 + (count - (count div 2 + 1)) = first + count" using False by simp
      have "partition_point (\<lambda>p. fst p < k) m
              (lower_bound_loop m k (?mid + 1) (count - (count div 2 + 1)))"
        using "1.IH"(1)[OF False True "1.prems"(1)] lo "1.prems"(2,4) eq by simp
      then show ?thesis using False True by (subst lower_bound_loop.simps) simp
    next
      case nlt: False
      have hi: "\<forall>i. ?mid \<le> i \<and> i < length m \<longrightarrow> \<not> fst (m ! i) < k"
      proof (intro allI impI)
        fix i assume "?mid \<le> i \<and> i < length m"
        then have "fst (m ! ?mid) \<le> fst (m ! i)"
          using flat_map_inv_mono[OF "1.prems"(1), of ?mid i] by simp
        then show "\<not> fst (m ! i) < k" using nlt by simp
      qed
      have "partition_point (\<lambda>p. fst p < k) m (lower_bound_loop m k first (count div 2))"
        using "1.IH"(2)[OF False nlt "1.prems"(1)] hi "1.prems"(2,3) mid by simp
      then show ?thesis using False nlt by (subst lower_bound_loop.simps) simp
    qed
  qed
qed

lemma upper_bound_loop_point:
  assumes "flat_map_inv m" "first + count \<le> length m"
    "\<forall>i<first. \<not> k < fst (m ! i)" "\<forall>i. first + count \<le> i \<and> i < length m \<longrightarrow> k < fst (m ! i)"
  shows "partition_point (\<lambda>p. \<not> k < fst p) m (upper_bound_loop m k first count)"
  using assms
proof (induction m k first count rule: upper_bound_loop.induct)
  case (1 m k first count)
  let ?mid = "first + count div 2"
  show ?case
  proof (cases "count = 0")
    case True
    then show ?thesis using "1.prems"
      by (simp add: upper_bound_loop.simps partition_point_def)
  next
    case False
    then have mid: "?mid < length m" "?mid < first + count" using "1.prems"(2) by auto
    show ?thesis
    proof (cases "\<not> k < fst (m ! ?mid)")
      case True
      have lo: "\<forall>i<?mid + 1. \<not> k < fst (m ! i)"
      proof (intro allI impI)
        fix i assume "i < ?mid + 1"
        then have "fst (m ! i) \<le> fst (m ! ?mid)"
          using flat_map_inv_mono[OF "1.prems"(1), of i ?mid] mid by simp
        then show "\<not> k < fst (m ! i)" using True by simp
      qed
      have eq: "?mid + 1 + (count - (count div 2 + 1)) = first + count" using False by simp
      have "partition_point (\<lambda>p. \<not> k < fst p) m
              (upper_bound_loop m k (?mid + 1) (count - (count div 2 + 1)))"
        using "1.IH"(1)[OF False True "1.prems"(1)] lo "1.prems"(2,4) eq by simp
      then show ?thesis using False True by (subst upper_bound_loop.simps) simp
    next
      case gt: False
      have hi: "\<forall>i. ?mid \<le> i \<and> i < length m \<longrightarrow> k < fst (m ! i)"
      proof (intro allI impI)
        fix i assume "?mid \<le> i \<and> i < length m"
        then have "fst (m ! ?mid) \<le> fst (m ! i)"
          using flat_map_inv_mono[OF "1.prems"(1), of ?mid i] by simp
        then show "k < fst (m ! i)" using gt by simp
      qed
      have "partition_point (\<lambda>p. \<not> k < fst p) m (upper_bound_loop m k first (count div 2))"
        using "1.IH"(2)[OF False gt "1.prems"(1)] hi "1.prems"(2,3) mid by simp
      then show ?thesis using False gt by (subst upper_bound_loop.simps) simp
    qed
  qed
qed

lemma lower_bound_point:
  "flat_map_inv m \<Longrightarrow> partition_point (\<lambda>p. fst p < k) m (lower_bound m k)"
  unfolding lower_bound_def by (rule lower_bound_loop_point) auto

lemma upper_bound_point:
  "flat_map_inv m \<Longrightarrow> partition_point (\<lambda>p. \<not> k < fst p) m (upper_bound m k)"
  unfolding upper_bound_def by (rule upper_bound_loop_point) auto

lemma lower_bound_ref: "flat_map_inv m \<Longrightarrow> lower_bound m k = ref_lower_bound m k"
  unfolding ref_lower_bound_def by (rule partition_point_length) (rule lower_bound_point)

lemma upper_bound_ref: "flat_map_inv m \<Longrightarrow> upper_bound m k = ref_upper_bound m k"
  unfolding ref_upper_bound_def by (rule partition_point_length) (rule upper_bound_point)

lemma lower_bound_le: "flat_map_inv m \<Longrightarrow> lower_bound m k \<le> length m"
  using lower_bound_point[of m k] by (simp add: partition_point_def)

lemma lower_bound_below:
  "flat_map_inv m \<Longrightarrow> i < lower_bound m k \<Longrightarrow> fst (m ! i) < k"
  using lower_bound_point[of m k] by (simp add: partition_point_def)

lemma lower_bound_above:
  "flat_map_inv m \<Longrightarrow> lower_bound m k \<le> i \<Longrightarrow> i < length m \<Longrightarrow> k \<le> fst (m ! i)"
  using lower_bound_point[of m k] by (auto simp: partition_point_def not_less)

text \<open>What \<^verbatim>\<open>find\<close> returns.\<close>

lemma find_key_le: "flat_map_inv m \<Longrightarrow> find_key m k \<le> length m"
  by (simp add: find_key_def Let_def lower_bound_le)

lemma find_key_found:
  assumes "flat_map_inv m" "find_key m k \<noteq> length m"
  shows "find_key m k < length m \<and> fst (m ! find_key m k) = k \<and> find_key m k = lower_bound m k"
proof -
  let ?it = "lower_bound m k"
  from assms(2) have a: "?it \<noteq> length m" "\<not> k < fst (m ! ?it)" and b: "find_key m k = ?it"
    by (auto simp: find_key_def Let_def split: if_splits)
  then have lt: "?it < length m" using lower_bound_le[OF assms(1), of k] by simp
  have "k \<le> fst (m ! ?it)" using lower_bound_above[OF assms(1) _ lt] by simp
  with a b lt show ?thesis by simp
qed

lemma find_key_absent:
  assumes "flat_map_inv m" "find_key m k = length m"
  shows "k \<notin> fst ` set m"
proof
  assume "k \<in> fst ` set m"
  then obtain i where i: "i < length m" "fst (m ! i) = k"
    by (auto simp: in_set_conv_nth)
  let ?it = "lower_bound m k"
  have "\<not> i < ?it" using lower_bound_below[OF assms(1), of i k] i by auto
  then have le: "?it \<le> i" by simp
  then have lt: "?it < length m" using i by simp
  have "k \<le> fst (m ! ?it)" using lower_bound_above[OF assms(1) _ lt] by simp
  moreover have "fst (m ! ?it) \<le> k" using flat_map_inv_mono[OF assms(1) le i(1)] i by simp
  ultimately have "\<not> k < fst (m ! ?it)" by simp
  then have "find_key m k = ?it" using lt by (simp add: find_key_def Let_def)
  then show False using assms(2) lt by simp
qed

lemma find_key_iff:
  "flat_map_inv m \<Longrightarrow> find_key m k \<noteq> length m \<longleftrightarrow> k \<in> fst ` set m"
  using find_key_absent[of m k] find_key_found[of m k]
  by (metis image_eqI nth_mem)

lemma flat_map_inv_distinct: "flat_map_inv m \<Longrightarrow> distinct (map fst m)"
  unfolding flat_map_inv_def by (simp add: strict_sorted_iff)

lemma find_key_map_of:
  assumes "flat_map_inv m" "find_key m k \<noteq> length m"
  shows "map_of m k = Some (snd (m ! find_key m k))"
proof -
  from find_key_found[OF assms] have "find_key m k < length m" "fst (m ! find_key m k) = k"
    by auto
  then have "(k, snd (m ! find_key m k)) \<in> set m"
    by (metis nth_mem prod.collapse)
  then show ?thesis using flat_map_inv_distinct[OF assms(1)] by simp
qed

lemma lower_bound_take:
  assumes "flat_map_inv m"
  shows "\<forall>x\<in>set (take (lower_bound m k) m). fst x < k"
proof
  fix x assume "x \<in> set (take (lower_bound m k) m)"
  then obtain i where "i < lower_bound m k" "i < length m" "x = m ! i"
    by (auto simp: in_set_conv_nth)
  then show "fst x < k" using lower_bound_below[OF assms] by simp
qed

lemma lower_bound_drop:
  assumes "flat_map_inv m"
  shows "\<forall>x\<in>set (drop (lower_bound m k) m). k \<le> fst x"
proof
  fix x assume "x \<in> set (drop (lower_bound m k) m)"
  then obtain i where "i < length m - lower_bound m k" "x = m ! (lower_bound m k + i)"
    by (auto simp: in_set_conv_nth)
  then show "k \<le> fst x" using lower_bound_above[OF assms, of k "lower_bound m k + i"] by simp
qed

lemma flat_map_inv_take: "flat_map_inv m \<Longrightarrow> flat_map_inv (take n m)"
  unfolding flat_map_inv_def by (simp add: take_map[symmetric] sorted_wrt_take)

lemma flat_map_inv_drop: "flat_map_inv m \<Longrightarrow> flat_map_inv (drop n m)"
  unfolding flat_map_inv_def by (simp add: drop_map[symmetric] sorted_wrt_drop)

lemma insert_pair_absent:
  assumes "flat_map_inv m" "fst p \<notin> fst ` set m"
  shows "insert_pair m p =
           ((lower_bound m (fst p), True),
            take (lower_bound m (fst p)) m @ p # drop (lower_bound m (fst p)) m)"
proof -
  let ?it = "lower_bound m (fst p)"
  have "?it = length m \<or> fst p < fst (m ! ?it)"
  proof (cases "?it = length m")
    case False
    then have lt: "?it < length m" using lower_bound_le[OF assms(1), of "fst p"] by simp
    then have "fst p \<le> fst (m ! ?it)" using lower_bound_above[OF assms(1)] by simp
    moreover have "fst (m ! ?it) \<in> fst ` set m" using lt by simp
    ultimately show ?thesis using assms(2) by (metis order_le_imp_less_or_eq)
  qed simp
  then show ?thesis by (auto simp: insert_pair_def Let_def)
qed

lemma insert_pair_present:
  assumes "flat_map_inv m" "fst p \<in> fst ` set m"
  shows "insert_pair m p = ((find_key m (fst p), False), m)"
proof -
  have ne: "find_key m (fst p) \<noteq> length m" using find_key_iff[OF assms(1)] assms(2) by simp
  from find_key_found[OF assms(1) ne] show ?thesis
    by (auto simp: insert_pair_def Let_def)
qed

lemma insert_pair_inv:
  assumes "flat_map_inv m"
  shows "flat_map_inv (snd (insert_pair m p))"
proof (cases "fst p \<in> fst ` set m")
  case True
  then show ?thesis using assms by (simp add: insert_pair_present)
next
  case False
  let ?it = "lower_bound m (fst p)"
  have lo: "\<forall>x\<in>set (take ?it m). fst x < fst p" by (rule lower_bound_take[OF assms])
  have hi: "\<forall>x\<in>set (drop ?it m). fst p < fst x"
  proof
    fix x assume x: "x \<in> set (drop ?it m)"
    then have "fst p \<le> fst x" using lower_bound_drop[OF assms] by blast
    moreover have "x \<in> set m" using x by (rule in_set_dropD)
    ultimately show "fst p < fst x" using False by (metis image_eqI order_le_imp_less_or_eq)
  qed
  have cross: "\<forall>x\<in>set (take ?it m). \<forall>y\<in>set (drop ?it m). fst x < fst y"
    using lo hi by (meson order.strict_trans)
  have "sorted_wrt (<) (map fst (take ?it m) @ fst p # map fst (drop ?it m))"
    unfolding sorted_wrt_append
    using flat_map_inv_take[OF assms, of ?it] flat_map_inv_drop[OF assms, of ?it] lo hi cross
    by (auto simp: flat_map_inv_def)
  then show ?thesis using False assms by (simp add: insert_pair_absent flat_map_inv_def)
qed

lemma map_of_insert_middle:
  assumes "map_of xs (fst p) = None" "map_of ys (fst p) = None"
  shows "map_of (xs @ p # ys) = map_of [p] ++ map_of (xs @ ys)"
proof
  fix x
  show "map_of (xs @ p # ys) x = (map_of [p] ++ map_of (xs @ ys)) x"
    using assms by (cases p) (auto simp: map_add_def split: option.splits)
qed

lemma filter_distinct_middle:
  assumes "distinct (map fst (xs @ x # ys))"
  shows "filter (\<lambda>p. fst p \<noteq> fst x) (xs @ x # ys) = xs @ ys"
proof -
  have a: "\<forall>y\<in>set xs. fst y \<noteq> fst x" using assms by (auto simp: image_iff)
  have b: "\<forall>y\<in>set ys. fst y \<noteq> fst x" using assms by (auto simp: image_iff)
  show ?thesis using a b by simp
qed

lemma insert_pair_map_of:
  assumes "flat_map_inv m"
  shows "map_of (snd (insert_pair m p)) = map_of [p] ++ map_of m"
proof (cases "fst p \<in> fst ` set m")
  case True
  then have "fst p \<in> dom (map_of m)" by (simp add: dom_map_of_conv_image_fst)
  then have "map_of [p] ++ map_of m = map_of m"
    by (auto simp: map_add_def fun_eq_iff split: option.splits)
  then show ?thesis using True assms by (simp add: insert_pair_present)
next
  case False
  let ?it = "lower_bound m (fst p)"
  have t: "map_of (take ?it m) (fst p) = None"
    using False by (auto simp: map_of_eq_None_iff dest: in_set_takeD)
  have d: "map_of (drop ?it m) (fst p) = None"
    using False by (auto simp: map_of_eq_None_iff dest: in_set_dropD)
  have "map_of (take ?it m @ p # drop ?it m) = map_of [p] ++ map_of (take ?it m @ drop ?it m)"
    by (rule map_of_insert_middle[OF t d])
  then show ?thesis using False assms by (simp add: insert_pair_absent)
qed

lemma insert_pair_length:
  "flat_map_inv m \<Longrightarrow> length (snd (insert_pair m p)) = (if fst p \<in> fst ` set m then length m else Suc (length m))"
  using lower_bound_le[of m "fst p"] by (simp add: insert_pair_present insert_pair_absent)

lemma insert_all_inv: "flat_map_inv m \<Longrightarrow> flat_map_inv (insert_all m ps)"
  unfolding insert_all_def
  by (induction ps arbitrary: m) (simp_all add: insert_pair_inv)

lemma insert_all_map_of: "flat_map_inv m \<Longrightarrow> map_of (insert_all m ps) = map_of ps ++ map_of m"
  unfolding insert_all_def
proof (induction ps arbitrary: m)
  case Nil
  then show ?case by simp
next
  case (Cons p ps)
  have "map_of (fold (\<lambda>p acc. snd (insert_pair acc p)) ps (snd (insert_pair m p)))
          = map_of ps ++ (map_of [p] ++ map_of m)"
    using Cons.IH[OF insert_pair_inv[OF Cons.prems]] insert_pair_map_of[OF Cons.prems] by simp
  also have "\<dots> = map_of (p # ps) ++ map_of m"
    by (cases p) (auto simp: map_add_def fun_eq_iff split: option.splits)
  finally show ?case by (simp only: fold_Cons comp_apply)
qed

lemma flat_map_inv_Nil: "flat_map_inv []"
  by (simp add: flat_map_inv_def)

lemma subscript_present:
  assumes "flat_map_inv m" "map_of m k = Some v"
  shows "snd (subscript m k d) = m \<and> fst (subscript m k d) < length m
          \<and> m ! fst (subscript m k d) = (k, v)"
proof -
  have k: "k \<in> fst ` set m" using assms(2) by (metis domI dom_map_of_conv_image_fst)
  then have ne: "find_key m k \<noteq> length m" using find_key_iff[OF assms(1)] by simp
  have "snd (m ! find_key m k) = v" using find_key_map_of[OF assms(1) ne] assms(2) by simp
  moreover have "find_key m k < length m" "fst (m ! find_key m k) = k"
    using find_key_found[OF assms(1) ne] by auto
  ultimately show ?thesis using k assms(1)
    by (simp add: subscript_def Let_def insert_pair_present prod_eq_iff)
qed

lemma subscript_absent:
  assumes "flat_map_inv m" "map_of m k = None"
  shows "snd (subscript m k d) = take (lower_bound m k) m @ (k, d) # drop (lower_bound m k) m
          \<and> fst (subscript m k d) = lower_bound m k
          \<and> snd (subscript m k d) ! fst (subscript m k d) = (k, d)"
proof -
  have k: "k \<notin> fst ` set m" using assms(2) by (simp add: map_of_eq_None_iff)
  have "length (take (lower_bound m k) m) = lower_bound m k"
    using lower_bound_le[OF assms(1), of k] by simp
  then have "(take (lower_bound m k) m @ (k, d) # drop (lower_bound m k) m) ! lower_bound m k = (k, d)"
    by (metis nth_append_length)
  then show ?thesis using k assms(1)
    by (simp add: subscript_def Let_def insert_pair_absent)
qed

lemma erase_at_filter:
  assumes "flat_map_inv m" "it < length m"
  shows "erase_at m it = filter (\<lambda>p. fst p \<noteq> fst (m ! it)) m"
proof -
  have d: "distinct (map fst m)" by (rule flat_map_inv_distinct[OF assms(1)])
  have m: "m = take it m @ m ! it # drop (Suc it) m" using assms(2) by (rule id_take_nth_drop)
  have "distinct (map fst (take it m @ m ! it # drop (Suc it) m))" using d m by simp
  then have "filter (\<lambda>p. fst p \<noteq> fst (m ! it)) (take it m @ m ! it # drop (Suc it) m)
          = take it m @ drop (Suc it) m"
    by (rule filter_distinct_middle)
  then show ?thesis using m by (simp add: erase_at_def)
qed

lemma flat_map_inv_filter: "flat_map_inv m \<Longrightarrow> flat_map_inv (filter P m)"
  unfolding flat_map_inv_def by (induction m) auto

lemma erase_at_inv: "flat_map_inv m \<Longrightarrow> it < length m \<Longrightarrow> flat_map_inv (erase_at m it)"
  by (simp add: erase_at_filter flat_map_inv_filter)

text \<open>
  The model against \<^verbatim>\<open>flat_map_test.cpp\<close>: the maps \<^verbatim>\<open>s1\<close>, \<^verbatim>\<open>s2\<close> and \<^verbatim>\<open>s3\<close> of the test and
  what each of its sections requires of them.
\<close>

lemmas flat_map_eval =
  flat_map_of_def insert_all_def insert_pair_def lower_bound_def upper_bound_def
  lower_bound_loop.simps upper_bound_loop.simps find_key_def erase_key_def erase_at_def
  count_key_def subscript_def equal_range_def Let_def

lemma flat_map_test_construct:
  "flat_map_of ([] :: (int \<times> int) list) = []
   \<and> flat_map_of [(4, 1), (3, 2 :: int)] = [(3 :: int, 2), (4, 1)]
   \<and> flat_map_of [(3, 2), (4, 1), (3, 3 :: int)] = [(3 :: int, 2), (4, 1)]"
  by (simp add: flat_map_eval)

lemma flat_map_test_find:
  "find_key ([] :: (int, int) flat_map) 1 = length ([] :: (int, int) flat_map)
   \<and> find_key [(3 :: int, 2 :: int), (4, 1)] 1 = length [(3 :: int, 2 :: int), (4, 1)]
   \<and> find_key [(3 :: int, 2 :: int), (4, 1)] 3 = 0
   \<and> [(3 :: int, 2 :: int), (4, 1)] ! find_key [(3 :: int, 2 :: int), (4, 1)] 4 = (4, 1)"
  by (simp add: flat_map_eval)

lemma flat_map_test_insert:
  "insert_pair [] (3 :: int, 3 :: int) = ((0, True), [(3, 3)])
   \<and> insert_pair [(3 :: int, 2 :: int), (4, 1)] (4, 5) = ((1, False), [(3, 2), (4, 1)])
   \<and> insert_pair [(3 :: int, 2 :: int), (4, 1)] (5, 6) = ((2, True), [(3, 2), (4, 1), (5, 6)])"
  by (simp add: flat_map_eval)

lemma flat_map_test_erase:
  "erase_key ([] :: (int, int) flat_map) 3 = (0, [])
   \<and> erase_key [(3 :: int, 2 :: int), (4, 1)] 4 = (1, [(3, 2)])
   \<and> erase_key [(3 :: int, 2 :: int), (4, 1)] 5 = (0, [(3, 2), (4, 1)])
   \<and> erase_at [(3 :: int, 2 :: int), (4, 1)] 0 = [(4, 1)]
   \<and> erase_at [(3 :: int, 2 :: int), (4, 1)] 1 = [(3, 2)]"
  by (simp add: flat_map_eval)

lemma flat_map_test_bounds:
  "lower_bound ([] :: (int, int) flat_map) 3 = 0
   \<and> lower_bound [(3 :: int, 2 :: int), (4, 1)] 3 = 0
   \<and> lower_bound [(3 :: int, 2 :: int), (4, 1)] 4 = 1
   \<and> lower_bound [(3 :: int, 2 :: int), (4, 1)] 5 = 2
   \<and> upper_bound ([] :: (int, int) flat_map) 3 = 0
   \<and> upper_bound [(3 :: int, 2 :: int), (4, 1)] 3 = 1
   \<and> upper_bound [(3 :: int, 2 :: int), (4, 1)] 4 = 2
   \<and> equal_range ([] :: (int, int) flat_map) 3 = (0, 0)
   \<and> equal_range [(3 :: int, 2 :: int), (4, 1)] 3 = (0, 1)
   \<and> equal_range [(3 :: int, 2 :: int), (4, 1)] 4 = (1, 2)
   \<and> count_key ([] :: (int, int) flat_map) 3 = 0
   \<and> count_key [(3 :: int, 2 :: int), (4, 1)] 3 = 1"
  by (simp add: flat_map_eval)

lemma flat_map_test_subscript:
  "snd (snd (subscript [] (3 :: int) (0 :: int)) ! fst (subscript [] (3 :: int) (0 :: int))) = 0
   \<and> snd (snd (subscript [(3 :: int, 2 :: int), (4, 1)] 3 0)
            ! fst (subscript [(3 :: int, 2 :: int), (4, 1)] 3 0)) = 2
   \<and> snd (snd (subscript [(3 :: int, 2 :: int), (4, 1)] 4 0)
            ! fst (subscript [(3 :: int, 2 :: int), (4, 1)] 4 0)) = 1"
  by (simp add: flat_map_eval)

text \<open>
  Claim C9. Whatever sequence \<open>ps\<close> of pairs is inserted into a sorted keyed map \<open>m0\<close>, in
  the map \<open>m\<close> that results the keys are strictly increasing in iteration order, hence
  unique; inserting a pair whose key is present reports \<open>False\<close> and leaves the map as it
  is, and inserting one whose key is absent reports \<open>True\<close>, adds the pair and keeps the
  order; \<^verbatim>\<open>operator[]\<close> gives the mapped value of a present key and the default-constructed
  value \<open>d\<close> for an absent one; and the binary searches \<^verbatim>\<open>lower_bound\<close>, \<^verbatim>\<open>upper_bound\<close> and
  \<^verbatim>\<open>equal_range\<close> return what the reference specification counts on the sorted array: the
  number of keys below \<open>k\<close>, and the number of keys not above \<open>k\<close>.
\<close>

theorem flat_map_insertions:
  fixes m0 :: "('k::linorder, 'v) flat_map"
  assumes "flat_map_inv m0" and "m = insert_all m0 ps"
  shows "sorted_wrt (<) (map fst m) \<and> distinct (map fst m)
    \<and> (fst p \<in> fst ` set m \<longrightarrow> insert_pair m p = ((find_key m (fst p), False), m))
    \<and> (fst p \<notin> fst ` set m \<longrightarrow>
         snd (fst (insert_pair m p)) \<and> sorted_wrt (<) (map fst (snd (insert_pair m p)))
         \<and> set (snd (insert_pair m p)) = insert p (set m))
    \<and> snd (snd (subscript m k d) ! fst (subscript m k d))
        = (case map_of m k of Some v \<Rightarrow> v | None \<Rightarrow> d)
    \<and> lower_bound m k = ref_lower_bound m k
    \<and> upper_bound m k = ref_upper_bound m k
    \<and> equal_range m k = (ref_lower_bound m k, ref_upper_bound m k)"
proof -
  have inv: "flat_map_inv m" using assms by (simp add: insert_all_inv)
  have a: "sorted_wrt (<) (map fst m)" using inv by (simp add: flat_map_inv_def)
  have b: "distinct (map fst m)" using inv by (rule flat_map_inv_distinct)
  have c: "fst p \<in> fst ` set m \<longrightarrow> insert_pair m p = ((find_key m (fst p), False), m)"
    using inv by (simp add: insert_pair_present)
  have d: "fst p \<notin> fst ` set m \<longrightarrow>
         snd (fst (insert_pair m p)) \<and> sorted_wrt (<) (map fst (snd (insert_pair m p)))
         \<and> set (snd (insert_pair m p)) = insert p (set m)"
  proof
    assume n: "fst p \<notin> fst ` set m"
    have "set (take (lower_bound m (fst p)) m @ p # drop (lower_bound m (fst p)) m)
            = insert p (set (take (lower_bound m (fst p)) m @ drop (lower_bound m (fst p)) m))"
      by (simp only: set_append set_simps) blast
    then have "set (snd (insert_pair m p)) = insert p (set m)"
      using inv n by (simp add: insert_pair_absent)
    moreover have "sorted_wrt (<) (map fst (snd (insert_pair m p)))"
      using insert_pair_inv[OF inv, of p] by (simp add: flat_map_inv_def)
    ultimately show "snd (fst (insert_pair m p)) \<and> sorted_wrt (<) (map fst (snd (insert_pair m p)))
         \<and> set (snd (insert_pair m p)) = insert p (set m)"
      using inv n by (simp add: insert_pair_absent)
  qed
  have e: "snd (snd (subscript m k d) ! fst (subscript m k d))
        = (case map_of m k of Some v \<Rightarrow> v | None \<Rightarrow> d)"
  proof (cases "map_of m k")
    case None
    from subscript_absent[OF inv None, of d]
    have "snd (subscript m k d) ! fst (subscript m k d) = (k, d)" by blast
    then show ?thesis using None by simp
  next
    case (Some v)
    from subscript_present[OF inv Some, of d]
    have "snd (subscript m k d) ! fst (subscript m k d) = (k, v)" by simp
    then show ?thesis using Some by simp
  qed
  have f: "lower_bound m k = ref_lower_bound m k" using inv by (rule lower_bound_ref)
  have g: "upper_bound m k = ref_upper_bound m k" using inv by (rule upper_bound_ref)
  have h: "equal_range m k = (ref_lower_bound m k, ref_upper_bound m k)"
    using f g by (simp add: equal_range_def)
  show ?thesis using a b c d e f g h by blast
qed

text \<open>
  The claim at the map \<^verbatim>\<open>s3\<close> of the test, built from \<^verbatim>\<open>{{3, 2}, {4, 1}, {3, 3}}\<close>.
\<close>

theorem flat_map_insertions_witness:
  "flat_map_inv ([] :: (int, int) flat_map)
   \<and> insert_all [] [(3, 2), (4, 1), (3, 3 :: int)] = [(3 :: int, 2), (4, 1)]
   \<and> sorted_wrt (<) (map fst [(3 :: int, 2 :: int), (4, 1)])
   \<and> insert_pair [(3 :: int, 2 :: int), (4, 1)] (4, 5) = ((1, False), [(3, 2), (4, 1)])
   \<and> snd (snd (subscript [(3 :: int, 2 :: int), (4, 1)] 4 0)
            ! fst (subscript [(3 :: int, 2 :: int), (4, 1)] 4 0)) = 1
   \<and> lower_bound [(3 :: int, 2 :: int), (4, 1)] 4 = 1
   \<and> upper_bound [(3 :: int, 2 :: int), (4, 1)] 4 = 2
   \<and> equal_range [(3 :: int, 2 :: int), (4, 1)] 4 = (1, 2)"
proof -
  have h1: "flat_map_inv ([] :: (int, int) flat_map)" by (simp add: flat_map_inv_def)
  have h2: "insert_all [] [(3, 2), (4, 1), (3, 3 :: int)] = [(3 :: int, 2), (4, 1)]"
    by (simp add: flat_map_eval)
  show ?thesis
    using flat_map_insertions[OF h1 h2[symmetric], of "(4, 5)" 4 0] h1 h2
    by (simp add: ref_lower_bound_def ref_upper_bound_def find_key_def lower_bound_def
        lower_bound_loop.simps)
qed


section \<open>Properties of the awaitable constructors\<close>

lemma duration_cast_ms_nonneg: "0 < tpm \<Longrightarrow> 0 \<le> d \<Longrightarrow> 0 \<le> duration_cast_ms tpm d"
  by (simp add: duration_cast_ms_def pos_imp_zdiv_nonneg_iff)

lemma duration_cast_ms_nonpos: "0 < tpm \<Longrightarrow> d \<le> 0 \<Longrightarrow> duration_cast_ms tpm d \<le> 0"
  by (auto simp: duration_cast_ms_def pos_imp_zdiv_nonneg_iff)

lemma duration_cast_ms_max:
  "0 < tpm \<Longrightarrow> duration_cast_ms tpm (max 0 d) = max 0 (duration_cast_ms tpm d)"
  using duration_cast_ms_nonneg[of tpm d] duration_cast_ms_nonpos[of tpm d]
  by (cases "0 \<le> d") (auto simp: max_def duration_cast_ms_def)

lemma duration_cast_ms_mult: "0 < tpm \<Longrightarrow> duration_cast_ms tpm (d * tpm) = d"
proof (cases "d < 0")
  case True
  assume t: "0 < tpm"
  have "- (d * tpm) div tpm = - d"
    using t by (metis less_irrefl mult_minus_left nonzero_mult_div_cancel_right)
  moreover have "d * tpm < 0" using True t by (simp add: mult_less_0_iff)
  ultimately show ?thesis by (simp add: duration_cast_ms_def)
next
  case False
  assume t: "0 < tpm"
  have "\<not> d * tpm < 0" using False t by (simp add: mult_less_0_iff)
  then show ?thesis using t by (simp add: duration_cast_ms_def)
qed

lemma duration_cast_ms_neg_iff: "0 < tpm \<Longrightarrow> duration_cast_ms tpm d < 0 \<Longrightarrow> d < 0"
  using duration_cast_ms_nonneg[of tpm d] by (cases "d < 0") auto

lemma duration_cast_ms_floor:
  assumes "0 < tpm" "0 \<le> d"
  shows "duration_cast_ms tpm d * tpm \<le> d \<and> d < (duration_cast_ms tpm d + 1) * tpm"
proof -
  have m: "d div tpm * tpm + d mod tpm = d" by simp
  have r: "0 \<le> d mod tpm" "d mod tpm < tpm" using assms(1) by simp_all
  have e: "(d div tpm + 1) * tpm = d div tpm * tpm + tpm" by (simp add: distrib_right)
  have "d div tpm * tpm \<le> d \<and> d < (d div tpm + 1) * tpm" using m r e by linarith
  then show ?thesis using assms(2) by (simp add: duration_cast_ms_def)
qed

lemma wrap64_fits: "fits64 x \<Longrightarrow> wrap64 x = x"
  by (simp add: wrap64_def fits64_def)

text \<open>
  Claim C7. \<^verbatim>\<open>deadline(when)\<close> is a one-shot (not polling) timeout awaitable whose
  duration is never negative, for every time point. For every time point \<open>when\<close> such that
  the counts of \<open>when\<close> and of \<open>now\<close> in their common duration type and their difference
  fit 64 bits, the duration is \<open>max(0, when - now)\<close> in whole milliseconds: it is zero
  when \<open>when\<close> is not after \<open>now\<close>, it is the number of whole milliseconds in
  \<open>max(0, when - now)\<close>, and the awaitable is the one \<^verbatim>\<open>timeout\<close> makes of that duration.
\<close>

theorem deadline_timeout:
  assumes "0 < tpm"
  shows "0 \<le> aw_timeout (deadline tpm kw kn now when)
    \<and> \<not> aw_for_polling (deadline tpm kw kn now when)
    \<and> \<not> aw_for_write (deadline tpm kw kn now when)
    \<and> aw_fd (deadline tpm kw kn now when) = - 1
    \<and> (fits64 (when * kw) \<and> fits64 (now * kn) \<and> fits64 (when * kw - now * kn) \<longrightarrow>
         aw_timeout (deadline tpm kw kn now when)
           = max 0 (duration_cast_ms tpm (when * kw - now * kn))
         \<and> (when * kw \<le> now * kn \<longrightarrow> aw_timeout (deadline tpm kw kn now when) = 0)
         \<and> aw_timeout (deadline tpm kw kn now when) * tpm \<le> max 0 (when * kw - now * kn)
         \<and> max 0 (when * kw - now * kn) < (aw_timeout (deadline tpm kw kn now when) + 1) * tpm
         \<and> deadline tpm kw kn now when = timeout tpm (max 0 (when * kw - now * kn)))"
proof -
  let ?D = "deadline tpm kw kn now when"
  let ?d = "when * kw - now * kn"
  have c0: "0 \<le> aw_timeout ?D"
    by (simp add: deadline_def Let_def awaitable_timeout_def)
  have pol: "\<not> aw_for_polling ?D \<and> \<not> aw_for_write ?D \<and> aw_fd ?D = - 1"
    by (simp add: deadline_def Let_def awaitable_timeout_def)
  have r: "fits64 (when * kw) \<and> fits64 (now * kn) \<and> fits64 ?d \<longrightarrow>
      aw_timeout ?D = max 0 (duration_cast_ms tpm ?d)
      \<and> (when * kw \<le> now * kn \<longrightarrow> aw_timeout ?D = 0)
      \<and> aw_timeout ?D * tpm \<le> max 0 ?d
      \<and> max 0 ?d < (aw_timeout ?D + 1) * tpm
      \<and> ?D = timeout tpm (max 0 ?d)"
  proof
    assume f: "fits64 (when * kw) \<and> fits64 (now * kn) \<and> fits64 ?d"
    have w: "wrap64 (wrap64 (when * kw) - wrap64 (now * kn)) = ?d"
      using f by (simp add: wrap64_fits)
    have eq: "?D = timeout tpm (max 0 ?d)"
      using assms by (simp add: deadline_def w timeout_def Let_def duration_cast_ms_max)
    have t: "aw_timeout ?D = duration_cast_ms tpm (max 0 ?d)"
      unfolding eq by (simp add: timeout_def awaitable_timeout_def)
    have fl: "duration_cast_ms tpm (max 0 ?d) * tpm \<le> max 0 ?d
        \<and> max 0 ?d < (duration_cast_ms tpm (max 0 ?d) + 1) * tpm"
      using duration_cast_ms_floor[OF assms, of "max 0 ?d"] by simp
    have past: "when * kw \<le> now * kn \<longrightarrow> duration_cast_ms tpm (max 0 ?d) = 0"
      by (simp add: max_def duration_cast_ms_def)
    have c1: "aw_timeout ?D = max 0 (duration_cast_ms tpm ?d)"
      using t assms by (simp add: duration_cast_ms_max)
    show "aw_timeout ?D = max 0 (duration_cast_ms tpm ?d)
      \<and> (when * kw \<le> now * kn \<longrightarrow> aw_timeout ?D = 0)
      \<and> aw_timeout ?D * tpm \<le> max 0 ?d
      \<and> max 0 ?d < (aw_timeout ?D + 1) * tpm
      \<and> ?D = timeout tpm (max 0 ?d)"
      using c1 fl[folded t] past[folded t] eq by blast
  qed
  show ?thesis using c0 pol r by blast
qed

text \<open>
  With a nanosecond clock, five milliseconds after the epoch: a deadline two and a half
  milliseconds ahead waits two milliseconds, a deadline in the past waits none, and a
  deadline counted in milliseconds, at eight, waits three.
\<close>

theorem deadline_timeout_witness:
  "(0 :: int) < 1000000
   \<and> fits64 (7500000 * 1) \<and> fits64 (5000000 * 1) \<and> fits64 (7500000 * 1 - 5000000 * 1)
   \<and> fits64 (4000000 * 1) \<and> fits64 (4000000 * 1 - 5000000 * 1)
   \<and> fits64 (8 * 1000000) \<and> fits64 (8 * 1000000 - 5000000 * 1)
   \<and> aw_timeout (deadline 1000000 1 1 5000000 7500000) = 2
   \<and> aw_timeout (deadline 1000000 1 1 5000000 4000000) = 0
   \<and> aw_timeout (deadline 1000000 1000000 1 5000000 8) = 3
   \<and> deadline 1000000 1 1 5000000 7500000 = timeout 1000000 2500000"
  using deadline_timeout[of 1000000 1 1 5000000 7500000]
    deadline_timeout[of 1000000 1 1 5000000 4000000]
    deadline_timeout[of 1000000 1000000 1 5000000 8]
  by (simp add: fits64_def duration_cast_ms_def timeout_def awaitable_timeout_def)

text \<open>
  The claim as the specification states it, for every time point, fails where the 64-bit
  subtraction overflows. With a nanosecond clock, five milliseconds after the epoch: the
  earliest time point in nanoseconds is in the past, and \<^verbatim>\<open>deadline\<close> waits
  9223372036849 milliseconds instead of none; the latest time point in milliseconds is
  9223372036854775802 milliseconds ahead, and \<^verbatim>\<open>deadline\<close> waits none.
\<close>

theorem deadline_overflow:
  "aw_timeout (deadline 1000000 1 1 5000000 (- 9223372036854775808)) = 9223372036849
   \<and> fits64 (- 9223372036854775808) \<and> fits64 5000000
   \<and> max 0 (duration_cast_ms 1000000 (- 9223372036854775808 * 1 - 5000000 * 1)) = 0
   \<and> aw_timeout (deadline 1000000 1000000 1 5000000 9223372036854775807) = 0
   \<and> fits64 9223372036854775807
   \<and> max 0 (duration_cast_ms 1000000 (9223372036854775807 * 1000000 - 5000000 * 1))
       = 9223372036854775802"
  by (simp add: deadline_def wrap64_def fits64_def duration_cast_ms_def awaitable_timeout_def)


section \<open>Properties of the execution context\<close>

lemma lower_bound_all_below:
  assumes "flat_map_inv m" "\<forall>x\<in>set m. fst x < k"
  shows "lower_bound m k = length m"
proof -
  have "filter (\<lambda>p. fst p < k) m = m" using assms(2) by simp
  then show ?thesis using lower_bound_ref[OF assms(1), of k] by (simp add: ref_lower_bound_def)
qed

lemma assign_key_end:
  assumes "flat_map_inv m" "\<forall>x\<in>set m. fst x < k"
  shows "assign_key m k v = m @ [(k, v)]"
  using lower_bound_all_below[OF assms]
  by (simp add: assign_key_def insert_pair_def Let_def)

lemma fold_assign_sorted:
  assumes "flat_map_inv (acc @ xs)" "list_all (\<lambda>p. fst p = portable_class_name (snd p)) xs"
  shows "fold (\<lambda>v m. assign_key m (portable_class_name v) v) (map snd xs) acc = acc @ xs"
  using assms
proof (induction xs arbitrary: acc)
  case Nil
  then show ?case by simp
next
  case (Cons p ps)
  have inv: "flat_map_inv acc" and below: "\<forall>x\<in>set acc. fst x < fst p"
    using Cons.prems(1) by (auto simp: flat_map_inv_def sorted_wrt_append)
  have key: "portable_class_name (snd p) = fst p" using Cons.prems(2) by simp
  have step: "assign_key acc (portable_class_name (snd p)) (snd p) = acc @ [p]"
    using assign_key_end[OF inv below, of "snd p"] key by simp
  have "fold (\<lambda>v m. assign_key m (portable_class_name v) v) (map snd ps) (acc @ [p])
          = (acc @ [p]) @ ps"
    using Cons.prems by (intro Cons.IH) simp_all
  then show ?case using step by simp
qed

lemma set_data_data:
  assumes "data_inv c"
  shows "ctx_data (set_data (data c) c') = ctx_data c"
  using fold_assign_sorted[of "[]" "ctx_data c"] assms
  by (simp add: set_data_def data_def data_inv_def)

lemma assign_key_inv:
  assumes "flat_map_inv m"
  shows "flat_map_inv (assign_key m k v)"
proof (cases "k \<in> fst ` set m")
  case True
  then have ne: "find_key m k \<noteq> length m" using find_key_iff[OF assms] by simp
  from find_key_found[OF assms ne]
  have f: "fst (m ! find_key m k) = k" and l: "find_key m k < length m" by blast+
  have "map fst m ! find_key m k = k" using f l by simp
  then have "(map fst m)[find_key m k := k] = map fst m" by (metis list_update_id)
  then have "map fst (m[find_key m k := (k, v)]) = map fst m"
    by (simp add: map_update)
  then show ?thesis using True assms
    by (simp add: assign_key_def Let_def insert_pair_present flat_map_inv_def)
next
  case False
  then show ?thesis using insert_pair_inv[OF assms, of "(k, v)"] assms
    by (simp add: assign_key_def Let_def insert_pair_absent)
qed

lemma assign_key_names:
  assumes "flat_map_inv m" "list_all (\<lambda>p. fst p = portable_class_name (snd p)) m"
  shows "list_all (\<lambda>p. fst p = portable_class_name (snd p))
           (assign_key m (portable_class_name v) v)"
proof (cases "portable_class_name v \<in> fst ` set m")
  case True
  have "set (m[find_key m (portable_class_name v) := (portable_class_name v, v)])
          \<subseteq> insert (portable_class_name v, v) (set m)"
    by (rule set_update_subset_insert)
  then show ?thesis using True assms
    by (auto simp: assign_key_def Let_def insert_pair_present list_all_iff)
next
  case False
  then show ?thesis using assms
    by (auto simp: assign_key_def Let_def insert_pair_absent list_all_iff
        dest: in_set_takeD in_set_dropD)
qed

lemma set_one_data_inv: "data_inv c \<Longrightarrow> data_inv (set_one t c)"
  by (simp add: data_inv_def set_one_def assign_key_inv assign_key_names)

lemma reset_one_data_inv: "data_inv c \<Longrightarrow> data_inv (reset_one name c)"
proof -
  assume a: "data_inv c"
  show ?thesis
  proof (cases "find_key (ctx_data c) name \<noteq> length (ctx_data c)")
    case True
    then have lt: "find_key (ctx_data c) name < length (ctx_data c)"
      using find_key_le[of "ctx_data c" name] a by (simp add: data_inv_def)
    show ?thesis using a True lt
      by (auto simp: data_inv_def reset_one_def erase_key_def Let_def erase_at_filter
          flat_map_inv_filter list_all_iff)
  next
    case False
    then show ?thesis using a by (simp add: data_inv_def reset_one_def erase_key_def)
  qed
qed

lemma top_data_inv: "data_inv top_ctx"
  by (simp add: data_inv_def top_ctx_def flat_map_inv_def)

text \<open>
  Claim C8. For every type, named \<open>name\<close>, \<^verbatim>\<open>get\<close> returns the value stored under that
  name in the keyed data of the context when there is one, and the default instance of
  the type otherwise; in both cases the context, and so its keyed data, is as before.
\<close>

theorem get_returns:
  assumes "flat_map_inv (ctx_data c)"
  shows "(map_of (ctx_data c) name = Some v \<longrightarrow> get name default_instance c = (v, c))
    \<and> (map_of (ctx_data c) name = None \<longrightarrow> get name default_instance c = (default_instance, c))
    \<and> ctx_data (snd (get name default_instance c)) = ctx_data c"
proof -
  have a: "map_of (ctx_data c) name = Some v \<longrightarrow> get name default_instance c = (v, c)"
  proof
    assume s: "map_of (ctx_data c) name = Some v"
    then have "name \<in> fst ` set (ctx_data c)" by (metis domI dom_map_of_conv_image_fst)
    then have ne: "find_key (ctx_data c) name \<noteq> length (ctx_data c)"
      using find_key_iff[OF assms] by simp
    then show "get name default_instance c = (v, c)"
      using find_key_map_of[OF assms ne] s by (simp add: get_def Let_def)
  qed
  have b: "map_of (ctx_data c) name = None \<longrightarrow> get name default_instance c = (default_instance, c)"
  proof
    assume "map_of (ctx_data c) name = None"
    then have "name \<notin> fst ` set (ctx_data c)" by (simp add: map_of_eq_None_iff)
    then have "find_key (ctx_data c) name = length (ctx_data c)"
      using find_key_iff[OF assms, of name] by simp
    then show "get name default_instance c = (default_instance, c)"
      by (simp add: get_def Let_def)
  qed
  have "snd (get name default_instance c) = c" by (simp add: get_def Let_def)
  then show ?thesis using a b by simp
qed

text \<open>A context holding one value: its class is found, another class gets its default.\<close>

theorem get_returns_witness:
  "flat_map_inv (ctx_data (set_one (Dynamic ''trace'' ''t1'') (new_context top_ctx False)))
   \<and> get ''trace'' (Dynamic ''trace'' []) (set_one (Dynamic ''trace'' ''t1'') (new_context top_ctx False))
       = (Dynamic ''trace'' ''t1'', set_one (Dynamic ''trace'' ''t1'') (new_context top_ctx False))
   \<and> get ''user'' (Dynamic ''user'' []) (set_one (Dynamic ''trace'' ''t1'') (new_context top_ctx False))
       = (Dynamic ''user'' [], set_one (Dynamic ''trace'' ''t1'') (new_context top_ctx False))"
proof -
  have d: "ctx_data (set_one (Dynamic ''trace'' ''t1'') (new_context top_ctx False))
             = [(''trace'', Dynamic ''trace'' ''t1'')]"
    by (simp add: set_one_def new_context_def assign_key_def flat_map_eval)
  have h: "flat_map_inv (ctx_data (set_one (Dynamic ''trace'' ''t1'') (new_context top_ctx False)))"
    unfolding d by (simp add: flat_map_inv_def)
  show ?thesis
    using h
      get_returns[OF h, of "''trace''" "Dynamic ''trace'' ''t1''" "Dynamic ''trace'' []"]
      get_returns[OF h, of "''user''" "Dynamic ''user'' ''''" "Dynamic ''user'' []"]
    by (simp add: d)
qed

lemma deadline_past_cancelled:
  "context_deadline c = Some t \<Longrightarrow> t < now \<Longrightarrow> is_cancelled now c"
proof (induction c arbitrary: t rule: context_deadline.induct)
  case (1 p sh c d dt)
  show ?case
  proof (cases sh)
    case True
    then show ?thesis using "1.prems" by simp
  next
    case False
    show ?thesis
    proof (cases d)
      case None
      then obtain q where q: "p = Some q" "context_deadline q = Some t"
        using "1.prems"(1) False by (auto simp: min_deadline_def split: option.splits)
      then have "is_cancelled now q" using "1.IH"[OF False q(1) q(2) "1.prems"(2)] by simp
      then show ?thesis using q False by simp
    next
      case (Some x)
      show ?thesis
      proof (cases "x < now")
        case True
        then show ?thesis using Some by simp
      next
        case nx: False
        then obtain q y where q: "p = Some q" "context_deadline q = Some y" "y < now"
          using "1.prems" False Some
          by (auto simp: min_deadline_def min_def split: option.splits if_splits)
        then have "is_cancelled now q" using "1.IH"[OF False q(1) q(2) q(3)] by simp
        then show ?thesis using q False by simp
      qed
    qed
  qed
qed

lemma load_fields:
  "ctx_parent (load tpm now d c) = ctx_parent c \<and> ctx_shield (load tpm now d c) = ctx_shield c"
  by (cases d) (auto simp: load_def Let_def cancel_def set_data_def set_timeout_def set_deadline_def
      split: option.splits)

text \<open>
  Claim C6. \<^verbatim>\<open>save\<close> writes the triple of the remaining duration until the deadline (if
  any), the list of keyed values and the cancelled flag. \<^verbatim>\<open>load\<close> of that triple, at a time
  \<open>now'\<close> of the receiving process, into a fresh child \<open>c'\<close> of a context \<open>p\<close> that has no
  deadline and is not cancelled, gives a context whose remaining duration is the one
  saved, whose keyed values are the ones saved, and which is cancelled exactly when the
  flag was set.
\<close>

theorem context_round_trip:
  assumes "0 < tpm" and "data_inv c"
    and "context_deadline p = None" and "\<not> is_cancelled now' p"
    and "c' = load tpm now' (save tpm now c) (new_context p False)"
  shows "save tpm now c = (deadline_left tpm now c, data c, is_cancelled now c)
    \<and> deadline_left tpm now' c' = deadline_left tpm now c
    \<and> data c' = data c
    \<and> is_cancelled now' c' = is_cancelled now c"
proof -
  let ?d = "deadline_left tpm now c"
  let ?own = "case ?d of None \<Rightarrow> None | Some t \<Rightarrow> Some (now' + t * tpm)"
  let ?flag = "is_cancelled now c"
  have c': "c' = Context (Some p) False ?flag ?own (ctx_data c)"
    using set_data_data[OF assms(2)] assms(5)
    by (cases ?d; cases ?flag)
      (simp_all add: load_def save_def Let_def new_context_def set_timeout_def set_deadline_def
        set_data_def cancel_def data_def)
  have dl: "context_deadline c' = ?own"
    unfolding c' using assms(3) by (simp add: min_deadline_def split: option.splits)
  have a: "deadline_left tpm now' c' = ?d"
    using dl assms(1) by (cases ?d) (simp_all add: deadline_left_def[of tpm now' c'] duration_cast_ms_mult)
  have b: "data c' = data c" unfolding c' by (simp add: data_def)
  have neg: "\<And>t. ?d = Some t \<Longrightarrow> t < 0 \<Longrightarrow> ?flag"
  proof -
    fix t assume t: "?d = Some t" "t < 0"
    then obtain x where x: "context_deadline c = Some x" "t = duration_cast_ms tpm (x - now)"
      by (auto simp: deadline_left_def split: option.splits)
    then have "x - now < 0" using duration_cast_ms_neg_iff[OF assms(1), of "x - now"] t(2) by simp
    then show ?flag using deadline_past_cancelled[OF x(1), of now] by simp
  qed
  have past: "\<And>t. now' + t * tpm < now' \<longleftrightarrow> t < 0"
    using assms(1) by (simp add: mult_less_0_iff)
  have e: "is_cancelled now' c' = ?flag"
    unfolding c' using assms(4) neg past by (cases ?d) auto
  show ?thesis using a b e by (simp add: save_def)
qed

text \<open>
  A context with a value and a timeout of 250 ms, saved 50 ms later, is loaded by a peer
  whose clock reads another time: 200 ms remain there too.
\<close>

theorem context_round_trip_witness:
  "(0 :: int) < 1000000
   \<and> data_inv (set_timeout 1000000 0 250 (set_one (Dynamic ''trace'' ''t1'') (new_context top_ctx False)))
   \<and> context_deadline top_ctx = None \<and> \<not> is_cancelled 9000000000 top_ctx
   \<and> save 1000000 50000000
        (set_timeout 1000000 0 250 (set_one (Dynamic ''trace'' ''t1'') (new_context top_ctx False)))
       = (Some 200, [Dynamic ''trace'' ''t1''], False)
   \<and> deadline_left 1000000 9000000000
        (load 1000000 9000000000 (Some 200, [Dynamic ''trace'' ''t1''], False) (new_context top_ctx False))
       = Some 200
   \<and> data (load 1000000 9000000000 (Some 200, [Dynamic ''trace'' ''t1''], False) (new_context top_ctx False))
       = [Dynamic ''trace'' ''t1'']
   \<and> \<not> is_cancelled 9000000000
        (load 1000000 9000000000 (Some 200, [Dynamic ''trace'' ''t1''], False) (new_context top_ctx False))"
proof -
  let ?c = "set_timeout 1000000 0 250 (set_one (Dynamic ''trace'' ''t1'') (new_context top_ctx False))"
  have c: "?c = Context (Some top_ctx) False False (Some 250000000) [(''trace'', Dynamic ''trace'' ''t1'')]"
    by (simp add: set_timeout_def set_deadline_def set_one_def new_context_def assign_key_def
        flat_map_eval)
  have h1: "(0 :: int) < 1000000" by simp
  have h2: "data_inv ?c" unfolding c by (simp add: data_inv_def flat_map_inv_def)
  have h3: "context_deadline top_ctx = None" by (simp add: top_ctx_def min_deadline_def)
  have h4: "\<not> is_cancelled 9000000000 top_ctx" by (simp add: top_ctx_def)
  have v: "deadline_left 1000000 50000000 ?c = Some 200" "data ?c = [Dynamic ''trace'' ''t1'']"
    "is_cancelled 50000000 ?c = False"
    unfolding c
    by (simp_all add: deadline_left_def data_def top_ctx_def min_deadline_def duration_cast_ms_def)
  have sv: "save 1000000 50000000 ?c = (Some 200, [Dynamic ''trace'' ''t1''], False)"
    using v by (simp add: save_def)
  show ?thesis
    using context_round_trip[OF h1 h2 h3 h4 refl, of 50000000] h1 h2 h3 h4
    by (simp add: sv v)
qed


section \<open>Properties of the client engine\<close>

lemma map_of_fst_image: "map_of m k = Some e \<Longrightarrow> k \<in> fst ` set m"
  by (metis domI dom_map_of_conv_image_fst)

lemma find_key_entry:
  assumes "flat_map_inv m" "map_of m k = Some e"
  shows "find_key m k \<noteq> length m \<and> find_key m k < length m \<and> m ! find_key m k = (k, e)"
proof -
  have ne: "find_key m k \<noteq> length m"
    using find_key_iff[OF assms(1)] map_of_fst_image[OF assms(2)] by simp
  from find_key_found[OF assms(1) ne]
  have f: "fst (m ! find_key m k) = k" and l: "find_key m k < length m" by blast+
  have "snd (m ! find_key m k) = e" using find_key_map_of[OF assms(1) ne] assms(2) by simp
  then show ?thesis using ne f l by (simp add: prod_eq_iff)
qed

lemma find_key_none:
  assumes "flat_map_inv m" "map_of m k = None"
  shows "find_key m k = length m"
  using find_key_iff[OF assms(1), of k] assms(2) by (simp add: map_of_eq_None_iff)

lemma erase_entry:
  assumes "flat_map_inv m" "map_of m k = Some e"
  shows "erase_at m (find_key m k) = filter (\<lambda>p. fst p \<noteq> k) m"
  using erase_at_filter[OF assms(1), of "find_key m k"] find_key_entry[OF assms] by simp

lemma set_response_absent:
  "flat_map_inv (pending s) \<Longrightarrow> map_of (pending s) req_id = None
     \<Longrightarrow> set_response req_id response s = s"
  by (simp add: set_response_def Let_def find_key_none)

lemma set_response_present:
  assumes "flat_map_inv (pending s)" "map_of (pending s) req_id = Some e"
  shows "set_response req_id response s =
           s\<lparr>promises := set_value (pr_result e) response (promises s),
             pending := filter (\<lambda>p. fst p \<noteq> req_id) (pending s)\<rparr>"
  using find_key_entry[OF assms] erase_entry[OF assms]
  by (simp add: set_response_def Let_def)

lemma abandon_request_absent:
  "flat_map_inv (pending s) \<Longrightarrow> map_of (pending s) req_id = None
     \<Longrightarrow> abandon_request req_id s = s"
  by (simp add: abandon_request_def Let_def find_key_none)

lemma abandon_request_present:
  assumes "flat_map_inv (pending s)" "map_of (pending s) req_id = Some e"
  shows "abandon_request req_id s =
           s\<lparr>promises := set_exception (pr_result e) (Exn cancelled ''Request cancelled'') (promises s),
             pending := filter (\<lambda>p. fst p \<noteq> req_id) (pending s)\<rparr>"
  using find_key_entry[OF assms] erase_entry[OF assms]
  by (simp add: abandon_request_def Let_def)

lemma erase_at_take_drop:
  assumes "it < length m"
  shows "take it (erase_at m it) = take it m" "drop it (erase_at m it) = drop (Suc it) m"
  using assms by (simp_all add: erase_at_def)

lemma gc_loop_eq:
  "it \<le> length m \<Longrightarrow>
   gc_loop now it m st =
     (take it m @ filter (\<lambda>p. \<not> expired now (snd p)) (drop it m),
      fold (\<lambda>p st. if expired now (snd p)
                    then set_exception (pr_result (snd p))
                           (Exn deadline_exceeded ''Request timed out'') st
                    else st) (drop it m) st)"
proof (induction now it m st rule: gc_loop.induct)
  case (1 now it m st)
  show ?case
  proof (cases "it < length m")
    case False
    then show ?thesis using "1.prems" by (subst gc_loop.simps) simp
  next
    case lt: True
    have dr: "drop it m = m ! it # drop (Suc it) m" using lt by (simp add: Cons_nth_drop_Suc)
    show ?thesis
    proof (cases "expired now (snd (m ! it))")
      case True
      have le: "it \<le> length (erase_at m it)" using lt by (simp add: erase_at_def)
      show ?thesis
        using "1.IH"(1)[OF lt True le] lt True
        by (subst gc_loop.simps) (simp add: erase_at_take_drop dr)
    next
      case False
      have tk: "take (Suc it) m = take it m @ [m ! it]" using lt by (rule take_Suc_conv_app_nth)
      show ?thesis
        using "1.IH"(2)[OF lt False] lt False
        by (subst gc_loop.simps) (simp add: dr tk)
    qed
  qed
qed

lemma fold_set_exception:
  assumes "distinct (map (\<lambda>p. pr_result (snd p)) xs)"
  shows "fold (\<lambda>p st. if P p then set_exception (pr_result (snd p)) exc st else st) xs st h
           = st h @ (if \<exists>p\<in>set xs. P p \<and> pr_result (snd p) = h then [Exception exc] else [])"
  using assms
proof (induction xs arbitrary: st)
  case Nil
  then show ?case by simp
next
  case (Cons x xs)
  have nx: "\<forall>p\<in>set xs. pr_result (snd p) \<noteq> pr_result (snd x)"
    using Cons.prems by (auto simp: image_iff)
  have d: "distinct (map (\<lambda>p. pr_result (snd p)) xs)" using Cons.prems by simp
  show ?case using nx Cons.IH[OF d] by (auto simp: set_exception_def)
qed

lemma gc_eq:
  "gc now s =
     s\<lparr>pending := filter (\<lambda>p. \<not> expired now (snd p)) (pending s),
       promises := fold (\<lambda>p st. if expired now (snd p)
                    then set_exception (pr_result (snd p))
                           (Exn deadline_exceeded ''Request timed out'') st
                    else st) (pending s) (promises s)\<rparr>"
  by (simp add: gc_def Let_def gc_loop_eq)

lemma broadcast_exception_promises:
  assumes "distinct (map (\<lambda>p. pr_result (snd p)) (pending s))"
  shows "promises (broadcast_exception exc s) h
           = promises s h @ (if h \<in> pending_promises s then [Exception exc] else [])"
  using fold_set_exception[OF assms, of "\<lambda>p. True" exc "promises s" h]
  by (auto simp: broadcast_exception_def pending_promises_def)

lemma gc_promises:
  assumes "distinct (map (\<lambda>p. pr_result (snd p)) (pending s))"
  shows "promises (gc now s) h
           = promises s h @
             (if \<exists>p\<in>set (pending s). expired now (snd p) \<and> pr_result (snd p) = h
              then [Exception (Exn deadline_exceeded ''Request timed out'')] else [])"
  using fold_set_exception[OF assms, of "\<lambda>p. expired now (snd p)" _ "promises s" h]
  by (simp add: gc_eq)

lemma send_eq:
  "send io frame s =
     (send_exception io s,
      if send_exception io s = None
      then s\<lparr>connection := connected, wire := wire s @ [frame], ready := True\<rparr>
      else s\<lparr>ready := False, connection := disconnected\<rparr>)"
  by (cases "connection s = connected"; cases "connect_error io"; cases "send_error io")
    (auto simp: send_def send_exception_def connection_connect_def connection_send_def
      connection_disconnect_def)

lemma send_exception_cong:
  "connection s' = connection s \<Longrightarrow> send_exception io s' = send_exception io s"
  by (simp add: send_exception_def)

lemma pending_inv_cong:
  assumes "pending s' = pending s" "promises s' = promises s" "next_promise s' = next_promise s"
  shows "pending_inv s' = pending_inv s"
  using assms by (simp add: pending_inv_def)

lemma send_pending_inv: "pending_inv (snd (send io frame s)) = pending_inv s"
  by (rule pending_inv_cong) (simp_all add: send_eq)

lemma new_client_connection_inv: "pending_inv (new_client_connection n)"
  by (simp add: pending_inv_def new_client_connection_def flat_map_inv_def)

lemma pending_inv_entry:
  assumes "pending_inv s" "map_of (pending s) k = Some e"
  shows "promises s (pr_result e) = []" "pr_result e < next_promise s"
    "\<forall>p\<in>set (pending s). fst p \<noteq> k \<longrightarrow> pr_result (snd p) \<noteq> pr_result e"
proof -
  have m: "(k, e) \<in> set (pending s)" using assms(2) by (rule map_of_SomeD)
  then show "promises s (pr_result e) = []" "pr_result e < next_promise s"
    using assms(1) by (auto simp: pending_inv_def list_all_iff)
  have d: "distinct (map (\<lambda>p. pr_result (snd p)) (pending s))"
    using assms(1) by (simp add: pending_inv_def)
  show "\<forall>p\<in>set (pending s). fst p \<noteq> k \<longrightarrow> pr_result (snd p) \<noteq> pr_result e"
  proof (intro ballI impI)
    fix p assume p: "p \<in> set (pending s)" "fst p \<noteq> k"
    then have "p \<noteq> (k, e)" by auto
    then show "pr_result (snd p) \<noteq> pr_result e"
      using d m p(1) by (metis (mono_tags, lifting) distinct_map inj_onD snd_conv)
  qed
qed

lemma pending_inv_remove:
  assumes "pending_inv s" "map_of (pending s) k = Some e"
  shows "pending_inv (s\<lparr>promises := (promises s)(pr_result e := r),
                        pending := filter (\<lambda>p. fst p \<noteq> k) (pending s)\<rparr>)"
proof -
  note e = pending_inv_entry[OF assms]
  have "flat_map_inv (filter (\<lambda>p. fst p \<noteq> k) (pending s))"
    using assms(1) by (simp add: pending_inv_def flat_map_inv_filter)
  moreover have "distinct (map (\<lambda>p. pr_result (snd p)) (filter (\<lambda>p. fst p \<noteq> k) (pending s)))"
    using assms(1) by (simp add: pending_inv_def distinct_map_filter)
  moreover have "list_all (\<lambda>p. ((promises s)(pr_result e := r)) (pr_result (snd p)) = []
                    \<and> pr_result (snd p) < next_promise s) (filter (\<lambda>p. fst p \<noteq> k) (pending s))"
    using assms(1) e(3) by (auto simp: pending_inv_def list_all_iff)
  moreover have "\<forall>h. next_promise s \<le> h \<longrightarrow> ((promises s)(pr_result e := r)) h = []"
    using assms(1) e(2) by (auto simp: pending_inv_def)
  ultimately show ?thesis by (simp add: pending_inv_def)
qed

lemma set_response_inv: "pending_inv s \<Longrightarrow> pending_inv (set_response req_id response s)"
proof (cases "map_of (pending s) req_id")
  case None
  assume "pending_inv s"
  then show ?thesis using None by (simp add: set_response_absent pending_inv_def)
next
  case (Some e)
  assume i: "pending_inv s"
  then have f: "flat_map_inv (pending s)" by (simp add: pending_inv_def)
  show ?thesis
    using pending_inv_remove[OF i Some] by (simp add: set_response_present[OF f Some] set_value_def)
qed

lemma abandon_request_inv: "pending_inv s \<Longrightarrow> pending_inv (abandon_request req_id s)"
proof (cases "map_of (pending s) req_id")
  case None
  assume "pending_inv s"
  then show ?thesis using None by (simp add: abandon_request_absent pending_inv_def)
next
  case (Some e)
  assume i: "pending_inv s"
  then have f: "flat_map_inv (pending s)" by (simp add: pending_inv_def)
  show ?thesis
    using pending_inv_remove[OF i Some]
    by (simp add: abandon_request_present[OF f Some] set_exception_def)
qed

lemma pending_inv_distinct:
  "pending_inv s \<Longrightarrow> distinct (map (\<lambda>p. pr_result (snd p)) (pending s))"
  by (simp add: pending_inv_def)

lemma pending_inv_outside:
  assumes "pending_inv s" "next_promise s \<le> h"
  shows "h \<notin> pending_promises s"
  using assms by (auto simp: pending_inv_def pending_promises_def list_all_iff)

lemma gc_inv: "pending_inv s \<Longrightarrow> pending_inv (gc now s)"
proof -
  assume i: "pending_inv s"
  note d = pending_inv_distinct[OF i]
  have p: "pending (gc now s) = filter (\<lambda>p. \<not> expired now (snd p)) (pending s)"
    and n: "next_promise (gc now s) = next_promise s"
    by (simp_all add: gc_eq)
  have a: "flat_map_inv (pending (gc now s))"
    using i by (simp add: p pending_inv_def flat_map_inv_filter)
  have b: "distinct (map (\<lambda>p. pr_result (snd p)) (pending (gc now s)))"
    using d by (simp add: p distinct_map_filter)
  have c: "list_all (\<lambda>p. promises (gc now s) (pr_result (snd p)) = []
              \<and> pr_result (snd p) < next_promise (gc now s)) (pending (gc now s))"
    unfolding list_all_iff
  proof
    fix x assume x: "x \<in> set (pending (gc now s))"
    then have xs: "x \<in> set (pending s)" and nx: "\<not> expired now (snd x)" by (simp_all add: p)
    have "\<not> (\<exists>q\<in>set (pending s). expired now (snd q) \<and> pr_result (snd q) = pr_result (snd x))"
    proof
      assume "\<exists>q\<in>set (pending s). expired now (snd q) \<and> pr_result (snd q) = pr_result (snd x)"
      then obtain q where q: "q \<in> set (pending s)" "expired now (snd q)"
        "pr_result (snd q) = pr_result (snd x)" by blast
      then have "q = x" using d xs by (metis (mono_tags, lifting) distinct_map inj_onD)
      then show False using q(2) nx by simp
    qed
    then have "promises (gc now s) (pr_result (snd x)) = promises s (pr_result (snd x))"
      by (simp add: gc_promises[OF d])
    then show "promises (gc now s) (pr_result (snd x)) = []
        \<and> pr_result (snd x) < next_promise (gc now s)"
      using i xs by (auto simp: n pending_inv_def list_all_iff)
  qed
  have e: "\<forall>h. next_promise (gc now s) \<le> h \<longrightarrow> promises (gc now s) h = []"
  proof (intro allI impI)
    fix h assume "next_promise (gc now s) \<le> h"
    then have h: "next_promise s \<le> h" by (simp add: n)
    then have "h \<notin> pending_promises s" by (rule pending_inv_outside[OF i])
    then have "promises (gc now s) h = promises s h"
      by (auto simp: gc_promises[OF d] pending_promises_def)
    then show "promises (gc now s) h = []" using i h by (simp add: pending_inv_def)
  qed
  show ?thesis using a b c e by (simp add: pending_inv_def)
qed

lemma broadcast_exception_inv: "pending_inv s \<Longrightarrow> pending_inv (broadcast_exception exc s)"
proof -
  assume i: "pending_inv s"
  note d = pending_inv_distinct[OF i]
  have "\<forall>h. next_promise s \<le> h \<longrightarrow> promises (broadcast_exception exc s) h = []"
    using pending_inv_outside[OF i] i
    by (simp add: broadcast_exception_promises[OF d] pending_inv_def)
  then show ?thesis
    by (simp add: pending_inv_def broadcast_exception_def flat_map_inv_def)
qed

lemma cancel_request_inv: "pending_inv s \<Longrightarrow> pending_inv (cancel_request req_id s)"
proof -
  assume "pending_inv s"
  then have a: "pending_inv (abandon_request req_id s)" by (rule abandon_request_inv)
  have "pending_inv (cancel_request req_id s) = pending_inv (abandon_request req_id s)"
    by (rule pending_inv_cong) (simp_all add: cancel_request_def Let_def split: option.splits)
  then show ?thesis using a by simp
qed

lemma decode_encode_u32: "decode_u32 (encode_u32 w @ rest) = Some (w, rest)"
proof -
  have "or (ucast (ucast w :: 8 word)) (or (push_bit 8 (ucast (ucast (drop_bit 8 w) :: 8 word)))
          (or (push_bit 16 (ucast (ucast (drop_bit 16 w) :: 8 word)))
              (push_bit 24 (ucast (ucast (drop_bit 24 w) :: 8 word))))) = w"
    (is "?x = w")
  proof (rule bit_word_eqI)
    fix n assume "n < LENGTH(32)"
    then show "bit ?x n = bit w n"
      by (cases "n < 8"; cases "n < 16"; cases "n < 24") (auto simp: bit_simps)
  qed
  then show ?thesis by (simp add: encode_u32_def)
qed

lemma resolve_step:
  assumes "pending_inv s"
  shows "promises (resolve op s) h = promises s h
    \<or> (h \<in> pending_promises s \<and> promises s h = [] \<and> length (promises (resolve op s) h) = 1
        \<and> h \<notin> pending_promises (resolve op s))"
proof -
  have f: "flat_map_inv (pending s)" using assms by (simp add: pending_inv_def)
  note d = pending_inv_distinct[OF assms]
  have unres: "\<And>h. h \<in> pending_promises s \<Longrightarrow> promises s h = []"
    using assms by (auto simp: pending_inv_def pending_promises_def list_all_iff)
  have removed: "\<And>k e r. map_of (pending s) k = Some e \<Longrightarrow>
      pr_result e \<in> pending_promises s
      \<and> pr_result e \<notin> (\<lambda>p. pr_result (snd p)) ` set (filter (\<lambda>p. fst p \<noteq> k) (pending s))"
  proof -
    fix k e assume e: "map_of (pending s) k = Some e"
    have "(k, e) \<in> set (pending s)" using e by (rule map_of_SomeD)
    then have "pr_result e \<in> pending_promises s" by (force simp: pending_promises_def)
    then show "pr_result e \<in> pending_promises s
      \<and> pr_result e \<notin> (\<lambda>p. pr_result (snd p)) ` set (filter (\<lambda>p. fst p \<noteq> k) (pending s))"
      using pending_inv_entry(3)[OF assms e] by auto
  qed
  show ?thesis
  proof (cases op)
    case (Set_response req_id response)
    show ?thesis
    proof (cases "map_of (pending s) req_id")
      case None
      then show ?thesis using Set_response f by (simp add: set_response_absent)
    next
      case (Some e)
      show ?thesis
        using removed[OF Some] unres[of "pr_result e"] Set_response
        by (auto simp: set_response_present[OF f Some] set_value_def pending_promises_def)
    qed
  next
    case (Abandon_request req_id)
    show ?thesis
    proof (cases "map_of (pending s) req_id")
      case None
      then show ?thesis using Abandon_request f by (simp add: abandon_request_absent)
    next
      case (Some e)
      show ?thesis
        using removed[OF Some] unres[of "pr_result e"] Abandon_request
        by (auto simp: abandon_request_present[OF f Some] set_exception_def pending_promises_def)
    qed
  next
    case (Broadcast_exception exc)
    have "pending_promises (broadcast_exception exc s) = {}"
      by (simp add: pending_promises_def broadcast_exception_def)
    then show ?thesis
      using Broadcast_exception unres[of h] by (simp add: broadcast_exception_promises[OF d])
  next
    case (Gc now)
    show ?thesis
    proof (cases "\<exists>p\<in>set (pending s). expired now (snd p) \<and> pr_result (snd p) = h")
      case False
      then have "promises (gc now s) h = promises s h" by (auto simp: gc_promises[OF d])
      then show ?thesis using Gc by simp
    next
      case True
      then obtain p where p: "p \<in> set (pending s)" "expired now (snd p)" "pr_result (snd p) = h"
        by blast
      have hp: "h \<in> pending_promises s" using p by (force simp: pending_promises_def)
      have "h \<notin> pending_promises (gc now s)"
      proof
        assume "h \<in> pending_promises (gc now s)"
        then obtain q where q: "q \<in> set (pending s)" "\<not> expired now (snd q)" "pr_result (snd q) = h"
          by (auto simp: pending_promises_def gc_eq)
        then have "q = p" using d p by (metis (mono_tags, lifting) distinct_map inj_onD)
        then show False using p(2) q(2) by simp
      qed
      then show ?thesis using Gc True hp unres[OF hp] by (simp add: gc_promises[OF d])
    qed
  qed
qed

lemma resolve_inv: "pending_inv s \<Longrightarrow> pending_inv (resolve op s)"
  by (cases op) (simp_all add: set_response_inv gc_inv abandon_request_inv broadcast_exception_inv)

lemma resolve_resolved_once:
  assumes "pending_inv s" "resolved_once s"
  shows "resolved_once (resolve op s)"
  unfolding resolved_once_def
proof
  fix h
  show "length (promises (resolve op s) h) \<le> 1"
    using resolve_step[OF assms(1), of op h] assms(2) by (auto simp: resolved_once_def)
qed

lemma fold_resolve:
  "pending_inv s \<Longrightarrow> resolved_once s
     \<Longrightarrow> pending_inv (fold resolve ops s) \<and> resolved_once (fold resolve ops s)"
  by (induction ops arbitrary: s) (simp_all add: resolve_inv resolve_resolved_once)

text \<open>
  Claim C10. Each of \<^verbatim>\<open>set_response\<close>, \<^verbatim>\<open>gc\<close>, \<^verbatim>\<open>abandon_request\<close> and
  \<^verbatim>\<open>broadcast_exception\<close> removes, in the same step, the entry of every promise it
  resolves: a promise \<open>h\<close> that the operation changes belonged to a pending entry, was
  unresolved, holds exactly one resolution afterwards and belongs to no pending entry
  any more. So after any sequence \<open>ops\<close> of these operations no promise holds more than
  one resolution, and the invariant of the pending map still holds. On an id absent
  from the map \<^verbatim>\<open>set_response\<close> and \<^verbatim>\<open>abandon_request\<close> change nothing, as \<^verbatim>\<open>gc\<close> and
  \<^verbatim>\<open>broadcast_exception\<close> do on an empty map.
\<close>

theorem resolve_once:
  assumes "pending_inv s" and "resolved_once s"
  shows "pending_inv (fold resolve ops s) \<and> resolved_once (fold resolve ops s)
    \<and> (promises (resolve op s) h \<noteq> promises s h \<longrightarrow>
          h \<in> pending_promises s \<and> promises s h = []
          \<and> length (promises (resolve op s) h) = 1
          \<and> h \<notin> pending_promises (resolve op s))
    \<and> (map_of (pending s) req_id = None \<longrightarrow>
          set_response req_id response s = s \<and> abandon_request req_id s = s)
    \<and> (pending s = [] \<longrightarrow> gc now s = s \<and> broadcast_exception exc s = s)"
proof -
  have f: "flat_map_inv (pending s)" using assms(1) by (simp add: pending_inv_def)
  have a: "pending_inv (fold resolve ops s) \<and> resolved_once (fold resolve ops s)"
    using assms by (rule fold_resolve)
  have b: "promises (resolve op s) h \<noteq> promises s h \<longrightarrow>
          h \<in> pending_promises s \<and> promises s h = []
          \<and> length (promises (resolve op s) h) = 1
          \<and> h \<notin> pending_promises (resolve op s)"
    using resolve_step[OF assms(1), of op h] by blast
  have c: "map_of (pending s) req_id = None \<longrightarrow>
          set_response req_id response s = s \<and> abandon_request req_id s = s"
    using f by (simp add: set_response_absent abandon_request_absent)
  have e: "pending s = [] \<longrightarrow> gc now s = s \<and> broadcast_exception exc s = s"
    by (simp add: gc_eq broadcast_exception_def)
  show ?thesis using a b c e by blast
qed

lemma distinct_insert_middle:
  "distinct (map f (xs @ ys)) \<Longrightarrow> f x \<notin> f ` set (xs @ ys) \<Longrightarrow> distinct (map f (xs @ x # ys))"
  by auto

lemma register_request_fields:
  "promises (snd (register_request dl req_id s)) = promises s
   \<and> connection (snd (register_request dl req_id s)) = connection s
   \<and> wire (snd (register_request dl req_id s)) = wire s
   \<and> ready (snd (register_request dl req_id s)) = ready s
   \<and> sequence (snd (register_request dl req_id s)) = sequence s
   \<and> cancelled_requests (snd (register_request dl req_id s)) = cancelled_requests s
   \<and> max_queued_events (snd (register_request dl req_id s)) = max_queued_events s"
  by (simp add: register_request_def Let_def)

lemma register_request_absent:
  assumes "flat_map_inv (pending s)" "map_of (pending s) req_id = None"
  shows "fst (register_request dl req_id s) = next_promise s"
    "pending (snd (register_request dl req_id s)) =
       snd (insert_pair (pending s) (req_id, \<lparr>pr_deadline = dl, pr_result = next_promise s\<rparr>))"
    "next_promise (snd (register_request dl req_id s)) = Suc (next_promise s)"
proof -
  let ?m = "pending s"
  let ?it = "lower_bound ?m req_id"
  let ?d = "\<lparr>pr_deadline = None, pr_result = next_promise s\<rparr>"
  from subscript_absent[OF assms, of ?d]
  have sa1: "snd (subscript ?m req_id ?d) = take ?it ?m @ (req_id, ?d) # drop ?it ?m"
    and sa2: "fst (subscript ?m req_id ?d) = ?it"
    and sa3: "snd (subscript ?m req_id ?d) ! fst (subscript ?m req_id ?d) = (req_id, ?d)"
    by blast+
  have k: "req_id \<notin> fst ` set ?m" using assms(2) by (simp add: map_of_eq_None_iff)
  have len: "length (take ?it ?m) = ?it" using lower_bound_le[OF assms(1), of req_id] by simp
  have upd: "\<And>x y. (take ?it ?m @ x # drop ?it ?m)[?it := y] = take ?it ?m @ y # drop ?it ?m"
    using len by (metis list_update_length)
  show "fst (register_request dl req_id s) = next_promise s"
    by (simp add: register_request_def Let_def sa3)
  show "pending (snd (register_request dl req_id s)) =
       snd (insert_pair (pending s) (req_id, \<lparr>pr_deadline = dl, pr_result = next_promise s\<rparr>))"
    using upd k assms(1) by (simp add: register_request_def Let_def insert_pair_absent sa3)
      (simp add: sa1 sa2)
  show "next_promise (snd (register_request dl req_id s)) = Suc (next_promise s)"
    using find_key_none[OF assms] by (simp add: register_request_def Let_def)
qed

lemma register_request_present:
  assumes "flat_map_inv (pending s)" "map_of (pending s) req_id = Some e"
  shows "fst (register_request dl req_id s) = pr_result e"
    "pending (snd (register_request dl req_id s)) =
       (pending s)[find_key (pending s) req_id := (req_id, e\<lparr>pr_deadline := dl\<rparr>)]"
    "next_promise (snd (register_request dl req_id s)) = next_promise s"
proof -
  let ?d = "\<lparr>pr_deadline = None, pr_result = next_promise s\<rparr>"
  from subscript_present[OF assms, of ?d]
  have sp1: "snd (subscript (pending s) req_id ?d) = pending s"
    and sp3: "pending s ! fst (subscript (pending s) req_id ?d) = (req_id, e)"
    by blast+
  note fe = find_key_entry[OF assms]
  have it: "fst (subscript (pending s) req_id \<lparr>pr_deadline = None, pr_result = next_promise s\<rparr>)
              = find_key (pending s) req_id"
    using assms(1) map_of_fst_image[OF assms(2)]
    by (simp add: subscript_def Let_def insert_pair_present)
  show "fst (register_request dl req_id s) = pr_result e"
    by (simp add: register_request_def Let_def sp1 sp3)
  show "pending (snd (register_request dl req_id s)) =
       (pending s)[find_key (pending s) req_id := (req_id, e\<lparr>pr_deadline := dl\<rparr>)]"
    using it sp3 by (simp add: register_request_def Let_def sp1)
  show "next_promise (snd (register_request dl req_id s)) = next_promise s"
    using fe by (simp add: register_request_def Let_def)
qed

text \<open>The promise of the entry that \<open>register_request\<close> finds or makes.\<close>

lemma register_request_entry:
  assumes "pending_inv s"
  shows "\<exists>e. map_of (pending (snd (register_request dl req_id s))) req_id = Some e
           \<and> pr_result e = fst (register_request dl req_id s) \<and> pr_deadline e = dl"
    and "filter (\<lambda>p. fst p \<noteq> req_id) (pending (snd (register_request dl req_id s)))
           = filter (\<lambda>p. fst p \<noteq> req_id) (pending s)"
    and "pending_inv (snd (register_request dl req_id s))"
    and "promises s (fst (register_request dl req_id s)) = []"
proof -
  let ?s1 = "snd (register_request dl req_id s)"
  have f: "flat_map_inv (pending s)" using assms by (simp add: pending_inv_def)
  have pr: "promises ?s1 = promises s" using register_request_fields by blast
  have "(\<exists>e. map_of (pending ?s1) req_id = Some e
           \<and> pr_result e = fst (register_request dl req_id s) \<and> pr_deadline e = dl)
        \<and> filter (\<lambda>p. fst p \<noteq> req_id) (pending ?s1) = filter (\<lambda>p. fst p \<noteq> req_id) (pending s)
        \<and> pending_inv ?s1 \<and> promises s (fst (register_request dl req_id s)) = []"
  proof (cases "map_of (pending s) req_id")
    case None
    let ?new = "\<lparr>pr_deadline = dl, pr_result = next_promise s\<rparr>"
    let ?it = "lower_bound (pending s) req_id"
    note ra = register_request_absent[OF f None, of dl]
    have k: "req_id \<notin> fst ` set (pending s)" using None by (simp add: map_of_eq_None_iff)
    have p: "pending ?s1 = take ?it (pending s) @ (req_id, ?new) # drop ?it (pending s)"
      using ra(2) f k by (simp add: insert_pair_absent)
    have inv1: "flat_map_inv (pending ?s1)"
      using insert_pair_inv[OF f, of "(req_id, ?new)"] ra(2) by simp
    have "map_of (pending ?s1) req_id = Some ?new"
      using insert_pair_map_of[OF f, of "(req_id, ?new)"] ra(2) None by (simp add: map_add_def)
    then have a: "\<exists>e. map_of (pending ?s1) req_id = Some e
           \<and> pr_result e = fst (register_request dl req_id s) \<and> pr_deadline e = dl"
      using ra(1) by simp
    have b: "filter (\<lambda>p. fst p \<noteq> req_id) (pending ?s1)
                    = filter (\<lambda>p. fst p \<noteq> req_id) (pending s)"
    proof -
      have "filter (\<lambda>p. fst p \<noteq> req_id) (pending ?s1)
              = filter (\<lambda>p. fst p \<noteq> req_id) (take ?it (pending s))
                @ filter (\<lambda>p. fst p \<noteq> req_id) (drop ?it (pending s))"
        unfolding p by simp
      also have "\<dots> = filter (\<lambda>p. fst p \<noteq> req_id) (take ?it (pending s) @ drop ?it (pending s))"
        by (simp only: filter_append)
      also have "\<dots> = filter (\<lambda>p. fst p \<noteq> req_id) (pending s)"
        by (simp only: append_take_drop_id)
      finally show ?thesis .
    qed
    have old: "\<forall>x\<in>set (pending s). promises s (pr_result (snd x)) = []
                 \<and> pr_result (snd x) < next_promise s"
      using assms by (simp add: pending_inv_def list_all_iff)
    have fresh: "promises s (next_promise s) = []" using assms by (simp add: pending_inv_def)
    have d0: "distinct (map (\<lambda>p. pr_result (snd p)) (take ?it (pending s) @ drop ?it (pending s)))"
      using assms by (simp only: append_take_drop_id) (simp add: pending_inv_def)
    have notin: "next_promise s \<notin> (\<lambda>p. pr_result (snd p)) ` set (pending s)"
      using old by auto
    have sub: "set (take ?it (pending s)) \<subseteq> set (pending s)"
      "set (drop ?it (pending s)) \<subseteq> set (pending s)"
      by (simp_all add: set_take_subset set_drop_subset)
    have notin': "pr_result (snd (req_id, ?new))
        \<notin> (\<lambda>p. pr_result (snd p)) ` set (take ?it (pending s) @ drop ?it (pending s))"
      using notin by (simp only: append_take_drop_id) simp
    have d1: "distinct (map (\<lambda>p. pr_result (snd p)) (pending ?s1))"
      unfolding p using d0 notin' by (rule distinct_insert_middle)
    have "set (take ?it (pending s) @ (req_id, ?new) # drop ?it (pending s))
            = insert (req_id, ?new) (set (take ?it (pending s) @ drop ?it (pending s)))"
      by (simp only: set_append set_simps Un_insert_right)
    then have sp: "set (pending ?s1) = insert (req_id, ?new) (set (pending s))"
      unfolding p by (simp only: append_take_drop_id)
    have la: "list_all (\<lambda>x. promises ?s1 (pr_result (snd x)) = []
                  \<and> pr_result (snd x) < next_promise ?s1) (pending ?s1)"
      unfolding pr ra(3) list_all_iff sp using old fresh by (auto simp: less_Suc_eq)
    have fr: "\<forall>h. next_promise ?s1 \<le> h \<longrightarrow> promises ?s1 h = []"
      unfolding pr ra(3) using assms by (simp add: pending_inv_def)
    have c: "pending_inv ?s1" using inv1 d1 la fr by (simp add: pending_inv_def)
    show ?thesis using a b c fresh ra(1) by simp
  next
    case (Some e)
    let ?it = "find_key (pending s) req_id"
    let ?upd = "(req_id, e\<lparr>pr_deadline := dl\<rparr>)"
    note rp = register_request_present[OF f Some, of dl]
    note fe = find_key_entry[OF f Some]
    have keys: "map fst (pending ?s1) = map fst (pending s)"
      unfolding rp(2) using fe by (simp add: map_update) (metis fst_conv list_update_id nth_map)
    have hs: "map (\<lambda>p. pr_result (snd p)) (pending ?s1) = map (\<lambda>p. pr_result (snd p)) (pending s)"
      unfolding rp(2) using fe
      by (simp add: map_update) (metis (mono_tags, lifting) list_update_id nth_map snd_conv)
    have inv1: "flat_map_inv (pending ?s1)" using f keys by (simp add: flat_map_inv_def)
    have "(req_id, e\<lparr>pr_deadline := dl\<rparr>) \<in> set (pending ?s1)"
      unfolding rp(2) using fe by (simp add: set_update_memI)
    then have "map_of (pending ?s1) req_id = Some (e\<lparr>pr_deadline := dl\<rparr>)"
      using flat_map_inv_distinct[OF inv1] by simp
    then have a: "\<exists>e. map_of (pending ?s1) req_id = Some e
           \<and> pr_result e = fst (register_request dl req_id s) \<and> pr_deadline e = dl"
      using rp(1) by simp
    have m: "pending s = take ?it (pending s) @ (req_id, e) # drop (Suc ?it) (pending s)"
      using fe id_take_nth_drop[of ?it "pending s"] by simp
    have u: "pending ?s1 = take ?it (pending s) @ ?upd # drop (Suc ?it) (pending s)"
      unfolding rp(2) using fe by (simp add: upd_conv_take_nth_drop)
    have "filter (\<lambda>p. fst p \<noteq> req_id) (pending ?s1)
            = filter (\<lambda>p. fst p \<noteq> req_id) (take ?it (pending s) @ (req_id, e) # drop (Suc ?it) (pending s))"
      unfolding u by simp
    then have b: "filter (\<lambda>p. fst p \<noteq> req_id) (pending ?s1)
                    = filter (\<lambda>p. fst p \<noteq> req_id) (pending s)"
      using m by simp
    have d1: "distinct (map (\<lambda>p. pr_result (snd p)) (pending ?s1))"
      unfolding hs using assms by (simp add: pending_inv_def)
    have "list_all (\<lambda>h. promises s h = [] \<and> h < next_promise s)
            (map (\<lambda>p. pr_result (snd p)) (pending s))"
      using assms by (simp add: pending_inv_def list_all_iff)
    then have "list_all (\<lambda>h. promises s h = [] \<and> h < next_promise s)
            (map (\<lambda>p. pr_result (snd p)) (pending ?s1))"
      unfolding hs .
    then have la: "list_all (\<lambda>x. promises ?s1 (pr_result (snd x)) = []
                  \<and> pr_result (snd x) < next_promise ?s1) (pending ?s1)"
      unfolding pr rp(3) by (simp add: list_all_iff)
    have fr: "\<forall>h. next_promise ?s1 \<le> h \<longrightarrow> promises ?s1 h = []"
      unfolding pr rp(3) using assms by (simp add: pending_inv_def)
    have c: "pending_inv ?s1" using inv1 d1 la fr by (simp add: pending_inv_def)
    show ?thesis using a b c pending_inv_entry(1)[OF assms Some] rp(1) by simp
  qed
  then show "\<exists>e. map_of (pending (snd (register_request dl req_id s))) req_id = Some e
           \<and> pr_result e = fst (register_request dl req_id s) \<and> pr_deadline e = dl"
    and "filter (\<lambda>p. fst p \<noteq> req_id) (pending (snd (register_request dl req_id s)))
           = filter (\<lambda>p. fst p \<noteq> req_id) (pending s)"
    and "pending_inv (snd (register_request dl req_id s))"
    and "promises s (fst (register_request dl req_id s)) = []"
    by blast+
qed

text \<open>Evaluating the engine on concrete states.\<close>

lemmas engine_eval =
  async_call_def new_request_id_def send_request_def steps_def register_request_def send_eq
  send_exception_def io_ok_def new_client_connection_def maybe_put_def subscript_def
  insert_pair_def lower_bound_def lower_bound_loop.simps find_key_def erase_at_def Let_def
  tag_in_order_def encode_u32_def

lemma three_calls_eq:
  "three_calls =
     \<lparr>max_queued_events = 256, sequence = 3, ready = True, connection = connected,
      wire = [[0, 0, 0, 0, 0, 1], [0, 1, 0, 0, 0, 2], [0, 2, 0, 0, 0, 3]],
      pending = [(0, \<lparr>pr_deadline = Some 10, pr_result = 0\<rparr>),
                 (1, \<lparr>pr_deadline = None, pr_result = 1\<rparr>),
                 (2, \<lparr>pr_deadline = Some 30, pr_result = 2\<rparr>)],
      new_deadline = [(), ()], cancelled_requests = [],
      promises = (\<lambda>h. []), next_promise = 3\<rparr>"
  by (simp add: three_calls_def engine_eval)

lemma three_calls_inv: "pending_inv three_calls"
  by (simp add: three_calls_eq pending_inv_def flat_map_inv_def)

lemma receive_step_inv:
  assumes "pending_inv s"
  shows "pending_inv (receive_step tg input s)"
proof -
  have c: "\<And>exc. pending_inv (broadcast_exception exc (connection_disconnect (s\<lparr>ready := False\<rparr>)))"
  proof -
    fix exc
    have "pending_inv (connection_disconnect (s\<lparr>ready := False\<rparr>)) = pending_inv s"
      by (rule pending_inv_cong) (simp_all add: connection_disconnect_def)
    then show "pending_inv (broadcast_exception exc (connection_disconnect (s\<lparr>ready := False\<rparr>)))"
      using assms broadcast_exception_inv by blast
  qed
  show ?thesis
    using c set_response_inv[OF assms]
    by (auto simp: receive_step_def receive_packet_def split: sum.splits list.splits option.splits)
qed

lemma handle_timeouts_and_cancellations_inv:
  assumes "pending_inv s" "handle_timeouts_and_cancellations tg io now branch s = Some s'"
  shows "pending_inv s'"
proof (cases branch)
  case New_deadline_added
  then obtain u q where "new_deadline s = u # q" "s' = s\<lparr>new_deadline := q\<rparr>"
    using assms(2) by (auto simp: handle_timeouts_and_cancellations_def split: list.splits)
  then have "pending_inv s' = pending_inv s" by (intro pending_inv_cong) simp_all
  then show ?thesis using assms(1) by simp
next
  case Cancelled_request
  then obtain r q where s': "s' = snd (send io (cancel_frame tg r) (s\<lparr>cancelled_requests := q\<rparr>))"
    using assms(2) by (auto simp: handle_timeouts_and_cancellations_def split: list.splits)
  have "pending_inv (s\<lparr>cancelled_requests := q\<rparr>) = pending_inv s"
    by (rule pending_inv_cong) simp_all
  then show ?thesis using assms(1) by (simp add: s' send_pending_inv)
next
  case Time_to_do_gc
  then have "s' = gc now s"
    using assms(2) by (auto simp: handle_timeouts_and_cancellations_def split: option.splits)
  then show ?thesis using gc_inv[OF assms(1)] by simp
qed

lemma step_inv: "pending_inv s \<Longrightarrow> pending_inv (step tg other s)"
proof (cases other)
  case (Receiver input)
  assume "pending_inv s"
  then show ?thesis using Receiver by (simp add: receive_step_inv)
next
  case (Handler io now branch)
  assume "pending_inv s"
  then show ?thesis
    using Handler handle_timeouts_and_cancellations_inv[of s tg io now branch]
    by (simp split: option.splits)
next
  case (Resolves op)
  assume "pending_inv s"
  then show ?thesis using Resolves by (simp add: resolve_inv)
next
  case Disconnects
  assume i: "pending_inv s"
  have "pending_inv (connection_disconnect (s\<lparr>ready := False\<rparr>)) = pending_inv s"
    by (rule pending_inv_cong) (simp_all add: connection_disconnect_def)
  then show ?thesis using Disconnects i by simp
next
  case Caller_new_request_id
  assume "pending_inv s"
  then show ?thesis using Caller_new_request_id by (simp add: new_request_id_def pending_inv_def)
next
  case (Caller_register dl req_id)
  assume "pending_inv s"
  then show ?thesis using Caller_register by (simp add: register_request_entry(3))
next
  case (Caller_send io frame)
  assume "pending_inv s"
  then show ?thesis using Caller_send by (simp add: send_pending_inv)
next
  case (Caller_cancel req_id)
  assume "pending_inv s"
  then show ?thesis using Caller_cancel by (simp add: cancel_request_inv)
next
  case (Queues_cancelled req_id)
  assume i: "pending_inv s"
  have "pending_inv (step tg (Queues_cancelled req_id) s) = pending_inv s"
    by (rule pending_inv_cong) (simp_all split: option.splits)
  then show ?thesis using Queues_cancelled i by simp
qed

lemma steps_inv: "pending_inv s \<Longrightarrow> pending_inv (steps tg others s)"
  unfolding steps_def by (induction others arbitrary: s) (simp_all add: step_inv)

lemma send_request_inv:
  assumes "pending_inv s"
  shows "pending_inv (snd (send_request tg dl io req_id request before_send before_abandon s))"
proof -
  let ?s1 = "steps tg before_send (snd (register_request dl req_id s))"
  have i1: "pending_inv ?s1" by (rule steps_inv[OF register_request_entry(3)[OF assms]])
  have i2: "pending_inv (snd (send io request ?s1))" using i1 by (simp add: send_pending_inv)
  show ?thesis
  proof (cases "send_exception io ?s1")
    case None
    then show ?thesis using i2 by (simp add: send_request_def Let_def send_eq)
  next
    case (Some e)
    have "snd (send_request tg dl io req_id request before_send before_abandon s)
            = abandon_request req_id (steps tg before_abandon (snd (send io request ?s1)))"
      using Some by (simp add: send_request_def Let_def send_eq)
    then show ?thesis using abandon_request_inv[OF steps_inv[OF i2]] by simp
  qed
qed

lemma async_call_inv:
  assumes "pending_inv s"
  shows "pending_inv
           (snd (async_call tg dl io body before_register before_send before_abandon s))"
proof -
  have "pending_inv (snd (new_request_id s))"
    using assms by (simp add: new_request_id_def pending_inv_def)
  then have a: "pending_inv (steps tg before_register (snd (new_request_id s)))"
    by (rule steps_inv)
  have "snd (async_call tg dl io body before_register before_send before_abandon s)
          = snd (send_request tg dl io (fst (new_request_id s))
                   (tg REQUEST # encode_u32 (fst (new_request_id s)) @ body)
                   before_send before_abandon
                   (steps tg before_register (snd (new_request_id s))))"
    by (simp add: async_call_def Let_def split: prod.splits sum.splits)
  then show ?thesis using send_request_inv[OF a] by simp
qed



text \<open>
  Claim C5. When the receiver reads a \<^verbatim>\<open>RESPONSE\<close> frame for a request id with no entry in
  the pending map, nothing changes and no exception is raised: the body of the loop
  returns the state as it was. When the id has an entry \<open>e\<close>, the promise of \<open>e\<close> receives
  the bytes after the header as its value, the entry is removed, and no other promise
  changes.
\<close>

theorem receive_response:
  assumes "pending_inv s" and "response = tg RESPONSE # encode_u32 req_id @ payload"
  shows "(map_of (pending s) req_id = None \<longrightarrow>
            receive_packet tg response s = Inr s \<and> receive_step tg (Inr response) s = s)
    \<and> (map_of (pending s) req_id = Some e \<longrightarrow>
          receive_packet tg response s = Inr (set_response req_id payload s)
          \<and> receive_step tg (Inr response) s = set_response req_id payload s
          \<and> pending (set_response req_id payload s) = filter (\<lambda>p. fst p \<noteq> req_id) (pending s)
          \<and> map_of (pending (set_response req_id payload s)) req_id = None
          \<and> promises (set_response req_id payload s) (pr_result e) = [Value payload]
          \<and> future_result (promises (set_response req_id payload s)) (pr_result e)
              = Some (Value payload)
          \<and> (\<forall>h. h \<noteq> pr_result e \<longrightarrow> promises (set_response req_id payload s) h = promises s h))"
proof -
  have f: "flat_map_inv (pending s)" using assms(1) by (simp add: pending_inv_def)
  have rp: "receive_packet tg response s = Inr (set_response req_id payload s)"
    by (simp add: receive_packet_def assms(2) decode_encode_u32)
  then have rs: "receive_step tg (Inr response) s = set_response req_id payload s"
    by (simp add: receive_step_def)
  have a: "map_of (pending s) req_id = None \<longrightarrow>
            receive_packet tg response s = Inr s \<and> receive_step tg (Inr response) s = s"
    using rp rs f by (simp add: set_response_absent)
  have b: "map_of (pending s) req_id = Some e \<longrightarrow>
          receive_packet tg response s = Inr (set_response req_id payload s)
          \<and> receive_step tg (Inr response) s = set_response req_id payload s
          \<and> pending (set_response req_id payload s) = filter (\<lambda>p. fst p \<noteq> req_id) (pending s)
          \<and> map_of (pending (set_response req_id payload s)) req_id = None
          \<and> promises (set_response req_id payload s) (pr_result e) = [Value payload]
          \<and> future_result (promises (set_response req_id payload s)) (pr_result e)
              = Some (Value payload)
          \<and> (\<forall>h. h \<noteq> pr_result e \<longrightarrow> promises (set_response req_id payload s) h = promises s h)"
  proof
    assume e: "map_of (pending s) req_id = Some e"
    have "map_of (filter (\<lambda>p. fst p \<noteq> req_id) (pending s)) req_id = None"
      by (simp add: map_of_eq_None_iff image_iff)
    then show "receive_packet tg response s = Inr (set_response req_id payload s)
          \<and> receive_step tg (Inr response) s = set_response req_id payload s
          \<and> pending (set_response req_id payload s) = filter (\<lambda>p. fst p \<noteq> req_id) (pending s)
          \<and> map_of (pending (set_response req_id payload s)) req_id = None
          \<and> promises (set_response req_id payload s) (pr_result e) = [Value payload]
          \<and> future_result (promises (set_response req_id payload s)) (pr_result e)
              = Some (Value payload)
          \<and> (\<forall>h. h \<noteq> pr_result e \<longrightarrow> promises (set_response req_id payload s) h = promises s h)"
      using rp rs pending_inv_entry(1)[OF assms(1) e]
      by (simp add: set_response_present[OF f e] set_value_def future_result_def)
  qed
  show ?thesis using a b by blast
qed

text \<open>The three calls: a response to the unknown request 9, and one to request 1.\<close>

theorem receive_response_witness:
  "pending_inv three_calls
   \<and> receive_packet tag_in_order [1, 9, 0, 0, 0, 42] three_calls = Inr three_calls
   \<and> pending (receive_step tag_in_order (Inr [1, 1, 0, 0, 0, 42]) three_calls)
       = [(0, \<lparr>pr_deadline = Some 10, pr_result = 0\<rparr>), (2, \<lparr>pr_deadline = Some 30, pr_result = 2\<rparr>)]
   \<and> future_result (promises (receive_step tag_in_order (Inr [1, 1, 0, 0, 0, 42]) three_calls)) 1
       = Some (Value [42])"
proof -
  have a: "[1, 9, 0, 0, 0, 42] = tag_in_order RESPONSE # encode_u32 9 @ [42]"
    "[1, 1, 0, 0, 0, 42] = tag_in_order RESPONSE # encode_u32 1 @ [42]"
    by (simp_all add: tag_in_order_def encode_u32_def)
  have m: "map_of (pending three_calls) 9 = None"
    "map_of (pending three_calls) 1 = Some \<lparr>pr_deadline = None, pr_result = 1\<rparr>"
    by (simp_all add: three_calls_eq)
  show ?thesis
    using receive_response[where tg = tag_in_order and req_id = 9 and payload = "[42]"
          and e = "\<lparr>pr_deadline = None, pr_result = 1\<rparr>", OF three_calls_inv a(1)]
      receive_response[where tg = tag_in_order and req_id = 1 and payload = "[42]"
          and e = "\<lparr>pr_deadline = None, pr_result = 1\<rparr>", OF three_calls_inv a(2)]
      three_calls_inv m
    by (simp add: three_calls_eq)
qed

lemma six_resolutions_eq:
  "fold resolve six_resolutions three_calls =
     three_calls\<lparr>pending := [],
       promises := (\<lambda>h. [])
         (0 := [Exception (Exn deadline_exceeded ''Request timed out'')],
          1 := [Value [42]],
          2 := [Exception (Exn io_error ''Connection reset'')])\<rparr>"
  by (simp add: six_resolutions_def three_calls_eq gc_eq expired_def set_response_def
      abandon_request_def broadcast_exception_def set_value_def set_exception_def find_key_def
      lower_bound_def lower_bound_loop.simps erase_at_def Let_def fun_upd_twist)

text \<open>
  The three calls under six operations, among them a second response to request 1 and an
  \<^verbatim>\<open>abandon_request\<close> of the request that \<^verbatim>\<open>gc\<close> has failed already.
\<close>

theorem resolve_once_witness:
  "pending_inv three_calls \<and> resolved_once three_calls
   \<and> pending (fold resolve six_resolutions three_calls) = []
   \<and> promises (fold resolve six_resolutions three_calls) 0
       = [Exception (Exn deadline_exceeded ''Request timed out'')]
   \<and> promises (fold resolve six_resolutions three_calls) 1 = [Value [42]]
   \<and> promises (fold resolve six_resolutions three_calls) 2
       = [Exception (Exn io_error ''Connection reset'')]
   \<and> resolved_once (fold resolve six_resolutions three_calls)"
proof -
  have r: "resolved_once three_calls" by (simp add: resolved_once_def three_calls_eq)
  from resolve_once[OF three_calls_inv r, of six_resolutions]
  have "resolved_once (fold resolve six_resolutions three_calls)" by blast
  then show ?thesis using three_calls_inv r by (simp add: six_resolutions_eq)
qed

lemma unat_add_of_nat:
  fixes w :: "32 word"
  assumes "unat w + i < 2 ^ 32"
  shows "unat (w + of_nat i) = unat w + i"
proof -
  have i: "i < 2 ^ 32" using assms by simp
  have "unat (of_nat i :: 32 word) = i" using i by (simp add: unat_of_nat)
  then show ?thesis using assms by (simp add: unat_word_ariths)
qed

lemma new_request_ids_sequence:
  "sequence (snd (new_request_ids n s)) = sequence s + of_nat n"
  by (induction n arbitrary: s) (simp_all add: Let_def new_request_id_def)

lemma new_request_ids_nth:
  "length (fst (new_request_ids n s)) = n
   \<and> (\<forall>i<n. fst (new_request_ids n s) ! i = sequence s + of_nat i)"
proof (induction n arbitrary: s)
  case 0
  then show ?case by simp
next
  case (Suc n)
  let ?s' = "snd (new_request_id s)"
  have s': "sequence ?s' = sequence s + 1" by (simp add: new_request_id_def)
  have IH: "length (fst (new_request_ids n ?s')) = n"
    "\<forall>i<n. fst (new_request_ids n ?s') ! i = sequence s + 1 + of_nat i"
    using Suc.IH[of ?s'] s' by simp_all
  have "\<forall>i<Suc n. fst (new_request_ids (Suc n) s) ! i = sequence s + of_nat i"
  proof (intro allI impI)
    fix i assume "i < Suc n"
    then show "fst (new_request_ids (Suc n) s) ! i = sequence s + of_nat i"
      using IH(2) by (cases i) (simp_all add: Let_def new_request_id_def)
  qed
  then show ?case using IH(1) by (simp add: Let_def)
qed

lemma new_request_ids_sorted:
  assumes "unat (sequence s) + n \<le> 2 ^ 32"
  shows "sorted_wrt (<) (fst (new_request_ids n s))"
  unfolding sorted_wrt_iff_nth_less
proof (intro allI impI)
  fix i j assume ij: "i < j" "j < length (fst (new_request_ids n s))"
  then have jn: "j < n" and "i < n" using new_request_ids_nth[of n s] by simp_all
  then have e: "fst (new_request_ids n s) ! i = sequence s + of_nat i"
    "fst (new_request_ids n s) ! j = sequence s + of_nat j"
    using new_request_ids_nth[of n s] by simp_all
  have "unat (sequence s + of_nat i) = unat (sequence s) + i"
    "unat (sequence s + of_nat j) = unat (sequence s) + j"
    using assms ij(1) jn by (simp_all add: unat_add_of_nat)
  then show "fst (new_request_ids n s) ! i < fst (new_request_ids n s) ! j"
    unfolding e using ij(1) by (simp add: word_less_nat_alt)
qed

text \<open>
  Claim C2, as amended. Of two successive calls of \<^verbatim>\<open>new_request_id\<close> the second returns
  the first id plus one modulo \<open>2^32\<close>, which is strictly greater unless the first id is
  \<open>2^32 - 1\<close>; \<open>n\<close> ids allocated in a row are strictly increasing, and distinct, as long
  as the counter does not pass \<open>2^32\<close>; and the pending map never holds two entries with
  the same id.
\<close>

theorem new_request_id_increasing:
  "fst (new_request_id (snd (new_request_id s))) = fst (new_request_id s) + 1
   \<and> (sequence s \<noteq> - 1 \<longrightarrow>
        fst (new_request_id s) < fst (new_request_id (snd (new_request_id s))))
   \<and> (unat (sequence s) + n \<le> 2 ^ 32 \<longrightarrow>
        sorted_wrt (<) (fst (new_request_ids n s)) \<and> distinct (fst (new_request_ids n s)))
   \<and> (pending_inv s \<longrightarrow>
        sorted_wrt (<) (map fst (pending (snd (async_call tg dl io body before_register before_send before_abandon s))))
        \<and> distinct (map fst (pending (snd (async_call tg dl io body before_register before_send before_abandon s)))))"
proof -
  have a: "fst (new_request_id (snd (new_request_id s))) = fst (new_request_id s) + 1"
    by (simp add: new_request_id_def)
  have b: "sequence s \<noteq> - 1 \<longrightarrow>
        fst (new_request_id s) < fst (new_request_id (snd (new_request_id s)))"
  proof
    assume "sequence s \<noteq> - 1"
    then have "unat (sequence s) \<noteq> unat (- 1 :: 32 word)" by (simp add: word_unat_eq_iff)
    moreover have "unat (sequence s) < 2 ^ 32" using unsigned_less[of "sequence s", where ?'a = nat] by simp
    moreover have "unat (- 1 :: 32 word) = 4294967295" by (simp add: unsigned_minus_1_eq_mask mask_eq_exp_minus_1)
    ultimately have "unat (sequence s) + 1 < 2 ^ 32" by simp
    then have "unat (sequence s + of_nat 1) = unat (sequence s) + 1" by (rule unat_add_of_nat)
    then have "sequence s < sequence s + 1" by (simp add: word_less_nat_alt)
    then show "fst (new_request_id s) < fst (new_request_id (snd (new_request_id s)))"
      by (simp add: new_request_id_def)
  qed
  have c: "unat (sequence s) + n \<le> 2 ^ 32 \<longrightarrow>
        sorted_wrt (<) (fst (new_request_ids n s)) \<and> distinct (fst (new_request_ids n s))"
    using new_request_ids_sorted[of s n] by (auto simp: strict_sorted_iff)
  have d: "pending_inv s \<longrightarrow>
        sorted_wrt (<) (map fst (pending (snd (async_call tg dl io body before_register before_send before_abandon s))))
        \<and> distinct (map fst (pending (snd (async_call tg dl io body before_register before_send before_abandon s))))"
  proof
    assume "pending_inv s"
    then have "pending_inv (snd (async_call tg dl io body before_register before_send before_abandon s))" by (rule async_call_inv)
    then have "sorted_wrt (<) (map fst (pending (snd (async_call tg dl io body before_register before_send before_abandon s))))"
      by (simp add: pending_inv_def flat_map_inv_def)
    then show "sorted_wrt (<) (map fst (pending (snd (async_call tg dl io body before_register before_send before_abandon s))))
        \<and> distinct (map fst (pending (snd (async_call tg dl io body before_register before_send before_abandon s))))"
      by (simp add: strict_sorted_iff)
  qed
  show ?thesis using a b c d by blast
qed

text \<open>The first three ids of a new connection.\<close>

theorem new_request_id_increasing_witness:
  "pending_inv (new_client_connection 256)
   \<and> sequence (new_client_connection 256) \<noteq> - 1
   \<and> unat (sequence (new_client_connection 256)) + 3 \<le> 2 ^ 32
   \<and> fst (new_request_id (new_client_connection 256))
       < fst (new_request_id (snd (new_request_id (new_client_connection 256))))
   \<and> fst (new_request_ids 3 (new_client_connection 256)) = [0, 1, 2]
   \<and> sorted_wrt (<) (fst (new_request_ids 3 (new_client_connection 256)))"
proof -
  have e: "fst (new_request_ids 3 (new_client_connection 256)) = [0, 1, 2]"
    by (simp add: numeral_3_eq_3 Let_def new_request_id_def new_client_connection_def)
  have h: "sequence (new_client_connection 256) \<noteq> - 1"
    "unat (sequence (new_client_connection 256)) + 3 \<le> 2 ^ 32"
    by (simp_all add: new_client_connection_def)
  from new_request_id_increasing[of "new_client_connection 256" 3]
  have "fst (new_request_id (new_client_connection 256))
       < fst (new_request_id (snd (new_request_id (new_client_connection 256))))
       \<and> sorted_wrt (<) (fst (new_request_ids 3 (new_client_connection 256)))"
    using h by blast
  then show ?thesis using h e new_client_connection_inv[of 256] by simp
qed

text \<open>
  Claim C2 as stated fails where the 32-bit counter wraps: after \<open>2^32 - 1\<close> allocations on
  one connection the next id is \<open>2^32 - 1\<close> and the one after it is 0.
\<close>

theorem new_request_id_wraps:
  "sequence (snd (new_request_ids 4294967295 (new_client_connection 256))) = 4294967295
   \<and> fst (new_request_id (snd (new_request_ids 4294967295 (new_client_connection 256))))
       = 4294967295
   \<and> fst (new_request_id (snd (new_request_id
        (snd (new_request_ids 4294967295 (new_client_connection 256)))))) = 0
   \<and> \<not> fst (new_request_id (snd (new_request_ids 4294967295 (new_client_connection 256))))
       < fst (new_request_id (snd (new_request_id
           (snd (new_request_ids 4294967295 (new_client_connection 256))))))"
proof -
  have s: "sequence (snd (new_request_ids 4294967295 (new_client_connection 256))) = 4294967295"
    by (simp add: new_request_ids_sequence new_client_connection_def)
  show ?thesis by (simp add: new_request_id_def s)
qed

lemma resolve_next_promise: "next_promise (resolve op s) = next_promise s"
  by (cases op) (simp_all add: set_response_def abandon_request_def gc_eq broadcast_exception_def Let_def)

lemma resolve_pending_subset:
  "flat_map_inv (pending s) \<Longrightarrow> set (pending (resolve op s)) \<subseteq> set (pending s)"
proof (cases op)
  case (Set_response k v)
  assume f: "flat_map_inv (pending s)"
  show ?thesis
    using Set_response set_response_absent[OF f, of k v] set_response_present[OF f, of k _ v]
    by (cases "map_of (pending s) k") auto
next
  case (Abandon_request k)
  assume f: "flat_map_inv (pending s)"
  show ?thesis
    using Abandon_request abandon_request_absent[OF f, of k] abandon_request_present[OF f, of k]
    by (cases "map_of (pending s) k") auto
next
  case (Gc now)
  then show ?thesis by (simp add: gc_eq)
next
  case (Broadcast_exception exc)
  then show ?thesis by (simp add: broadcast_exception_def)
qed

lemma pending_inv_key_entry:
  assumes "pending_inv s" "p \<in> set (pending s)" "map_of (pending s) (fst p) = Some e"
  shows "snd p = e"
proof -
  have "distinct (map fst (pending s))"
    using assms(1) by (simp add: pending_inv_def flat_map_inv_distinct)
  then have "map_of (pending s) (fst p) = Some (snd p)" using assms(2) by simp
  then show ?thesis using assms(3) by simp
qed

lemma resolve_removed:
  assumes "pending_inv s" "h \<in> pending_promises s" "h \<notin> pending_promises (resolve op s)"
  shows "length (promises (resolve op s) h) = 1"
proof -
  have f: "flat_map_inv (pending s)" using assms(1) by (simp add: pending_inv_def)
  note d = pending_inv_distinct[OF assms(1)]
  obtain p where p: "p \<in> set (pending s)" "pr_result (snd p) = h"
    using assms(2) by (auto simp: pending_promises_def)
  have unres: "promises s h = []"
    using assms(1) p by (auto simp: pending_inv_def list_all_iff)
  show ?thesis
  proof (cases op)
    case (Set_response k v)
    show ?thesis
    proof (cases "map_of (pending s) k")
      case None
      then show ?thesis using Set_response assms(2,3) f by (simp add: set_response_absent)
    next
      case (Some e)
      have "p \<notin> set (filter (\<lambda>p. fst p \<noteq> k) (pending s))"
        using assms(3) p(2) Set_response
        by (auto simp: set_response_present[OF f Some] pending_promises_def)
      then have "fst p = k" using p(1) by simp
      then have "snd p = e" using pending_inv_key_entry[OF assms(1) p(1)] Some by simp
      then show ?thesis
        using Set_response p(2) unres by (simp add: set_response_present[OF f Some] set_value_def)
    qed
  next
    case (Abandon_request k)
    show ?thesis
    proof (cases "map_of (pending s) k")
      case None
      then show ?thesis using Abandon_request assms(2,3) f by (simp add: abandon_request_absent)
    next
      case (Some e)
      have "p \<notin> set (filter (\<lambda>p. fst p \<noteq> k) (pending s))"
        using assms(3) p(2) Abandon_request
        by (auto simp: abandon_request_present[OF f Some] pending_promises_def)
      then have "fst p = k" using p(1) by simp
      then have "snd p = e" using pending_inv_key_entry[OF assms(1) p(1)] Some by simp
      then show ?thesis
        using Abandon_request p(2) unres
        by (simp add: abandon_request_present[OF f Some] set_exception_def)
    qed
  next
    case (Gc now)
    have "p \<notin> set (filter (\<lambda>p. \<not> expired now (snd p)) (pending s))"
      using assms(3) p(2) Gc by (auto simp: gc_eq pending_promises_def)
    then have "expired now (snd p)" using p(1) by simp
    then have "\<exists>q\<in>set (pending s). expired now (snd q) \<and> pr_result (snd q) = h"
      using p by blast
    then show ?thesis using Gc unres by (simp add: gc_promises[OF d])
  next
    case (Broadcast_exception exc)
    then show ?thesis using assms(2) unres by (simp add: broadcast_exception_promises[OF d])
  qed
qed

lemma tracked_cong:
  assumes "pending s' = pending s" "promises s' = promises s" "next_promise s' = next_promise s"
  shows "tracked k h s' = tracked k h s"
  using assms by (simp add: tracked_def pending_promises_def)

lemma resolve_tracked:
  assumes "pending_inv s" "tracked k h s"
  shows "tracked k h (resolve op s)"
proof -
  have f: "flat_map_inv (pending s)" using assms(1) by (simp add: pending_inv_def)
  have a: "h < next_promise (resolve op s)"
    using assms(2) by (simp add: resolve_next_promise tracked_def)
  have b: "\<forall>p\<in>set (pending (resolve op s)). pr_result (snd p) = h \<longrightarrow> fst p = k"
    using assms(2) resolve_pending_subset[OF f, of op] by (auto simp: tracked_def)
  have c: "h \<in> pending_promises (resolve op s) \<or> length (promises (resolve op s) h) = 1"
  proof (cases "h \<in> pending_promises s")
    case True
    then show ?thesis using resolve_removed[OF assms(1) True, of op] by blast
  next
    case False
    then have "length (promises s h) = 1" using assms(2) by (simp add: tracked_def)
    moreover have "promises (resolve op s) h = promises s h"
      using resolve_step[OF assms(1), of op h] False by blast
    ultimately show ?thesis by simp
  qed
  show ?thesis using a b c by (simp add: tracked_def)
qed


lemma register_request_key_promises:
  assumes "pending_inv s"
  shows "(\<lambda>p. (fst p, pr_result (snd p))) ` set (pending (snd (register_request dl k s)))
           = insert (k, fst (register_request dl k s))
               ((\<lambda>p. (fst p, pr_result (snd p))) ` set (pending s))"
    and "next_promise s \<le> next_promise (snd (register_request dl k s))"
    and "fst (register_request dl k s) < next_promise s
           \<longrightarrow> (k, fst (register_request dl k s))
                 \<in> (\<lambda>p. (fst p, pr_result (snd p))) ` set (pending s)"
proof -
  let ?s1 = "snd (register_request dl k s)"
  let ?kp = "\<lambda>p. (fst p, pr_result (snd p))"
  have f: "flat_map_inv (pending s)" using assms by (simp add: pending_inv_def)
  have "?kp ` set (pending ?s1) = insert (k, fst (register_request dl k s)) (?kp ` set (pending s))
      \<and> next_promise s \<le> next_promise ?s1
      \<and> (fst (register_request dl k s) < next_promise s
           \<longrightarrow> (k, fst (register_request dl k s)) \<in> ?kp ` set (pending s))"
  proof (cases "map_of (pending s) k")
    case None
    let ?new = "\<lparr>pr_deadline = dl, pr_result = next_promise s\<rparr>"
    let ?it = "lower_bound (pending s) k"
    note ra = register_request_absent[OF f None, of dl]
    have nk: "k \<notin> fst ` set (pending s)" using None by (simp add: map_of_eq_None_iff)
    have p: "pending ?s1 = take ?it (pending s) @ (k, ?new) # drop ?it (pending s)"
      using ra(2) f nk by (simp add: insert_pair_absent)
    have "set (take ?it (pending s) @ (k, ?new) # drop ?it (pending s))
            = insert (k, ?new) (set (take ?it (pending s) @ drop ?it (pending s)))"
      by (simp only: set_append set_simps Un_insert_right)
    then have sp: "set (pending ?s1) = insert (k, ?new) (set (pending s))"
      unfolding p by (simp only: append_take_drop_id)
    show ?thesis using ra(1) ra(3) by (simp add: sp)
  next
    case (Some e)
    let ?it = "find_key (pending s) k"
    note rp = register_request_present[OF f Some, of dl]
    note fe = find_key_entry[OF f Some]
    have "map ?kp (pending ?s1) = map ?kp (pending s)"
      unfolding rp(2) using fe
      by (simp add: map_update) (metis (mono_tags, lifting) fst_conv list_update_id nth_map snd_conv)
    then have "set (map ?kp (pending ?s1)) = set (map ?kp (pending s))" by simp
    then have im: "?kp ` set (pending ?s1) = ?kp ` set (pending s)" by (simp only: set_map)
    have "(k, e) \<in> set (pending s)" using Some by (rule map_of_SomeD)
    then have "(k, pr_result e) \<in> ?kp ` set (pending s)" by force
    then show ?thesis using rp(1) rp(3) im by auto
  qed
  then show "?kp ` set (pending ?s1)
           = insert (k, fst (register_request dl k s)) (?kp ` set (pending s))"
    and "next_promise s \<le> next_promise ?s1"
    and "fst (register_request dl k s) < next_promise s
           \<longrightarrow> (k, fst (register_request dl k s)) \<in> ?kp ` set (pending s)"
    by blast+
qed

lemma tracked_key_promises:
  "tracked k h s \<longleftrightarrow>
     h < next_promise s
     \<and> (\<forall>x\<in>(\<lambda>p. (fst p, pr_result (snd p))) ` set (pending s). snd x = h \<longrightarrow> fst x = k)
     \<and> (h \<in> snd ` (\<lambda>p. (fst p, pr_result (snd p))) ` set (pending s)
         \<or> length (promises s h) = 1)"
  by (auto simp: tracked_def pending_promises_def image_iff)

lemma register_request_tracked:
  assumes "pending_inv s" "tracked k h s"
  shows "tracked k h (snd (register_request dl k' s))"
proof -
  note kp = register_request_key_promises[OF assms(1), of dl k']
  have pr: "promises (snd (register_request dl k' s)) = promises s"
    using register_request_fields by blast
  have h: "h < next_promise s" using assms(2) by (simp add: tracked_def)
  have new: "fst (register_request dl k' s) = h \<longrightarrow> k' = k"
    using kp(3) h assms(2) by (auto simp: tracked_key_promises)
  show ?thesis
    using assms(2) kp(2) new h unfolding tracked_key_promises kp(1) pr by auto
qed

lemma register_request_tracked_new:
  assumes "pending_inv s"
  shows "tracked k (fst (register_request dl k s)) (snd (register_request dl k s))"
proof -
  let ?s1 = "snd (register_request dl k s)"
  obtain e where e: "map_of (pending ?s1) k = Some e" "pr_result e = fst (register_request dl k s)"
    using register_request_entry(1)[OF assms, of dl k] by blast
  note i = register_request_entry(3)[OF assms, of dl k]
  note pe = pending_inv_entry[OF i e(1)]
  have m: "(k, e) \<in> set (pending ?s1)" using e(1) by (rule map_of_SomeD)
  then have "pr_result e \<in> pending_promises ?s1" by (force simp: pending_promises_def)
  then show ?thesis using pe(2) pe(3) e(2) by (auto simp: tracked_def)
qed

lemma step_tracked:
  assumes "pending_inv s" "tracked k h s"
  shows "tracked k h (step tg other s)"
proof (cases other)
  case (Receiver input)
  let ?d = "connection_disconnect (s\<lparr>ready := False\<rparr>)"
  have di: "pending_inv ?d = pending_inv s"
    by (rule pending_inv_cong) (simp_all add: connection_disconnect_def)
  have dt: "tracked k h ?d = tracked k h s"
    by (rule tracked_cong) (simp_all add: connection_disconnect_def)
  have b: "\<And>exc. tracked k h (broadcast_exception exc ?d)"
    using resolve_tracked[of ?d k h "Broadcast_exception _"] di dt assms by simp
  have r: "\<And>req_id payload. tracked k h (set_response req_id payload s)"
    using resolve_tracked[OF assms, of "Set_response _ _"] by simp
  show ?thesis
    using Receiver b r
    by (auto simp: receive_step_def receive_packet_def split: sum.splits list.splits option.splits)
next
  case (Handler io now branch)
  show ?thesis
  proof (cases "handle_timeouts_and_cancellations tg io now branch s")
    case None
    then show ?thesis using Handler assms(2) by simp
  next
    case (Some s')
    have "tracked k h s'"
    proof (cases branch)
      case New_deadline_added
      then obtain u q where "new_deadline s = u # q" "s' = s\<lparr>new_deadline := q\<rparr>"
        using Some by (auto simp: handle_timeouts_and_cancellations_def split: list.splits)
      then have "tracked k h s' = tracked k h s" by (intro tracked_cong) simp_all
      then show ?thesis using assms(2) by simp
    next
      case Cancelled_request
      then obtain r q where s': "s' = snd (send io (cancel_frame tg r) (s\<lparr>cancelled_requests := q\<rparr>))"
        using Some by (auto simp: handle_timeouts_and_cancellations_def split: list.splits)
      have "tracked k h s' = tracked k h s"
        unfolding s' by (rule tracked_cong) (simp_all add: send_eq)
      then show ?thesis using assms(2) by simp
    next
      case Time_to_do_gc
      then have "s' = gc now s"
        using Some by (auto simp: handle_timeouts_and_cancellations_def split: option.splits)
      then show ?thesis using resolve_tracked[OF assms, of "Gc now"] by simp
    qed
    then show ?thesis using Handler Some by simp
  qed
next
  case Caller_new_request_id
  have "tracked k h (snd (new_request_id s)) = tracked k h s"
    by (rule tracked_cong) (simp_all add: new_request_id_def)
  then show ?thesis using Caller_new_request_id assms(2) by simp
next
  case (Caller_register dl req_id)
  then show ?thesis using register_request_tracked[OF assms] by simp
next
  case (Caller_send io frame)
  have "tracked k h (snd (send io frame s)) = tracked k h s"
    by (rule tracked_cong) (simp_all add: send_eq)
  then show ?thesis using Caller_send assms(2) by simp
next
  case (Resolves op)
  then show ?thesis using resolve_tracked[OF assms, of op] by simp
next
  case Disconnects
  have "tracked k h (connection_disconnect (s\<lparr>ready := False\<rparr>)) = tracked k h s"
    by (rule tracked_cong) (simp_all add: connection_disconnect_def)
  then show ?thesis using Disconnects assms(2) by simp
next
  case (Queues_cancelled req_id)
  have "tracked k h (step tg (Queues_cancelled req_id) s) = tracked k h s"
    by (rule tracked_cong) (simp_all split: option.splits)
  then show ?thesis using Queues_cancelled assms(2) by simp
next
  case (Caller_cancel req_id)
  have "tracked k h (cancel_request req_id s) = tracked k h (abandon_request req_id s)"
    by (rule tracked_cong) (simp_all add: cancel_request_def Let_def split: option.splits)
  then show ?thesis
    using Caller_cancel resolve_tracked[OF assms, of "Abandon_request req_id"] by simp
qed

lemma steps_tracked:
  "pending_inv s \<Longrightarrow> tracked k h s \<Longrightarrow> tracked k h (steps tg others s)"
  unfolding steps_def
  by (induction others arbitrary: s) (simp_all add: step_inv step_tracked)

lemma tracked_absent:
  assumes "tracked k h s" "map_of (pending s) k = None"
  shows "length (promises s h) = 1"
proof -
  have "h \<notin> pending_promises s"
  proof
    assume "h \<in> pending_promises s"
    then obtain p where p: "p \<in> set (pending s)" "pr_result (snd p) = h"
      by (auto simp: pending_promises_def)
    then have "fst p = k" using assms(1) by (simp add: tracked_def)
    then have "k \<in> fst ` set (pending s)" using p(1) by force
    then show False using assms(2) by (simp add: map_of_eq_None_iff)
  qed
  then show ?thesis using assms(1) by (simp add: tracked_def)
qed

lemma tracked_unresolved:
  assumes "pending_inv s" "tracked k h s" "promises s h = []"
  shows "\<exists>e. map_of (pending s) k = Some e \<and> pr_result e = h"
proof -
  have "h \<in> pending_promises s" using assms(2,3) by (auto simp: tracked_def)
  then obtain p where p: "p \<in> set (pending s)" "pr_result (snd p) = h"
    by (auto simp: pending_promises_def)
  then have k: "fst p = k" using assms(2) by (simp add: tracked_def)
  have "distinct (map fst (pending s))"
    using assms(1) by (simp add: pending_inv_def flat_map_inv_distinct)
  then have "map_of (pending s) (fst p) = Some (snd p)" using p(1) by simp
  then show ?thesis using k p(2) by auto
qed

lemma abandon_request_removes:
  assumes "pending_inv s"
  shows "pending (abandon_request k s) = filter (\<lambda>p. fst p \<noteq> k) (pending s)"
    and "map_of (pending (abandon_request k s)) k = None"
proof -
  have f: "flat_map_inv (pending s)" using assms by (simp add: pending_inv_def)
  show p: "pending (abandon_request k s) = filter (\<lambda>p. fst p \<noteq> k) (pending s)"
  proof (cases "map_of (pending s) k")
    case None
    then have "\<forall>p\<in>set (pending s). fst p \<noteq> k" by (auto simp: map_of_eq_None_iff)
    then have "filter (\<lambda>p. fst p \<noteq> k) (pending s) = pending s" by simp
    then show ?thesis using None f by (simp add: abandon_request_absent)
  next
    case (Some e)
    then show ?thesis by (simp add: abandon_request_present[OF f Some])
  qed
  show "map_of (pending (abandon_request k s)) k = None"
    unfolding p by (auto simp: map_of_eq_None_iff)
qed

text \<open>
  Claim C1, as amended. When sending the frame of a request raises an exception \<open>exc\<close>,
  \<^verbatim>\<open>send\<close> leaves the ready flag down and the connection disconnected and changes nothing
  else, and \<^verbatim>\<open>send_request\<close> raises \<open>exc\<close> to its caller after \<^verbatim>\<open>abandon_request\<close>,
  whatever the other threads do before the send (\<open>before_send\<close>) and between the failed
  send and \<^verbatim>\<open>abandon_request\<close> (\<open>before_abandon\<close>); \<open>s1\<close> is the state in which the frame is
  sent and \<open>s3\<close> the state in which \<^verbatim>\<open>abandon_request\<close> runs. After the call the request id
  has no entry in the pending map, \<^verbatim>\<open>abandon_request\<close> having taken no other entry out,
  and the promise \<open>h\<close> of the request is resolved exactly once: with the \<^verbatim>\<open>cancelled\<close>
  exception of \<^verbatim>\<open>abandon_request\<close>, no other promise changing, when no other thread
  resolved it before; otherwise with what that thread gave it, as when the receiver
  meets the disconnection and broadcasts its own exception, and \<^verbatim>\<open>abandon_request\<close>
  changes nothing when it finds no entry of the id. When no other thread runs in
  between, the entry of the request is the only one gone from the map the call started
  with, and \<open>h\<close> the only promise changed.
\<close>

theorem send_request_io_error:
  assumes "pending_inv s"
    and "s1 = steps tg before_send (snd (register_request dl req_id s))"
    and "send_exception io s1 = Some exc"
    and "s3 = steps tg before_abandon (snd (send io request s1))"
    and "h = fst (register_request dl req_id s)"
  shows "send_request tg dl io req_id request before_send before_abandon s
           = (Inl exc, abandon_request req_id s3)
    \<and> send io request s1 = (Some exc, s1\<lparr>ready := False, connection := disconnected\<rparr>)
    \<and> map_of (pending (abandon_request req_id s3)) req_id = None
    \<and> pending (abandon_request req_id s3) = filter (\<lambda>p. fst p \<noteq> req_id) (pending s3)
    \<and> (promises s3 h = [] \<longrightarrow>
          promises (abandon_request req_id s3)
            = (promises s3)(h := [Exception (Exn cancelled ''Request cancelled'')]))
    \<and> (promises s3 h \<noteq> [] \<longrightarrow> promises (abandon_request req_id s3) h = promises s3 h)
    \<and> (map_of (pending s3) req_id = None \<longrightarrow> abandon_request req_id s3 = s3)
    \<and> length (promises (abandon_request req_id s3) h) = 1
    \<and> pending_inv (abandon_request req_id s3)
    \<and> (before_send = [] \<and> before_abandon = [] \<longrightarrow>
          \<not> ready (abandon_request req_id s3)
          \<and> connection (abandon_request req_id s3) = disconnected
          \<and> wire (abandon_request req_id s3) = wire s
          \<and> pending (abandon_request req_id s3) = filter (\<lambda>p. fst p \<noteq> req_id) (pending s)
          \<and> promises (abandon_request req_id s3) h
              = [Exception (Exn cancelled ''Request cancelled'')]
          \<and> (\<forall>h'. h' \<noteq> h \<longrightarrow> promises (abandon_request req_id s3) h' = promises s h'))"
proof -
  let ?s0 = "snd (register_request dl req_id s)"
  let ?s2 = "s1\<lparr>ready := False, connection := disconnected\<rparr>"
  let ?s4 = "abandon_request req_id s3"
  have i0: "pending_inv ?s0" by (rule register_request_entry(3)[OF assms(1)])
  have t0: "tracked req_id h ?s0"
    unfolding assms(5) by (rule register_request_tracked_new[OF assms(1)])
  have i1: "pending_inv s1" unfolding assms(2) by (rule steps_inv[OF i0])
  have t1: "tracked req_id h s1" unfolding assms(2) by (rule steps_tracked[OF i0 t0])
  have snd_eq: "send io request s1 = (Some exc, ?s2)"
    using assms(3) by (simp add: send_eq)
  have i2: "pending_inv ?s2 = pending_inv s1" by (rule pending_inv_cong) simp_all
  have t2: "tracked req_id h ?s2 = tracked req_id h s1" by (rule tracked_cong) simp_all
  have s3: "s3 = steps tg before_abandon ?s2" using assms(4) snd_eq by simp
  have i3: "pending_inv s3" unfolding s3 using i1 i2 steps_inv by blast
  have t3: "tracked req_id h s3" unfolding s3 using i1 i2 t1 t2 steps_tracked by blast
  have f3: "flat_map_inv (pending s3)" using i3 by (simp add: pending_inv_def)
  have i4: "pending_inv ?s4" by (rule abandon_request_inv[OF i3])
  have t4: "tracked req_id h ?s4"
    using resolve_tracked[OF i3 t3, of "Abandon_request req_id"] by simp
  note rm = abandon_request_removes[OF i3, of req_id]
  have c1: "send_request tg dl io req_id request before_send before_abandon s = (Inl exc, ?s4)"
    using snd_eq assms(2,4) by (simp add: send_request_def Let_def)
  have c5: "promises s3 h = [] \<longrightarrow>
      promises ?s4 = (promises s3)(h := [Exception (Exn cancelled ''Request cancelled'')])"
  proof
    assume u: "promises s3 h = []"
    obtain e where e: "map_of (pending s3) req_id = Some e" "pr_result e = h"
      using tracked_unresolved[OF i3 t3 u] by blast
    show "promises ?s4 = (promises s3)(h := [Exception (Exn cancelled ''Request cancelled'')])"
      using e(2) u by (simp add: abandon_request_present[OF f3 e(1)] set_exception_def)
  qed
  have c6: "promises s3 h \<noteq> [] \<longrightarrow> promises ?s4 h = promises s3 h"
    using resolve_step[OF i3, of "Abandon_request req_id" h] by auto
  have c7: "map_of (pending s3) req_id = None \<longrightarrow> ?s4 = s3"
    using f3 by (simp add: abandon_request_absent)
  have c8: "length (promises ?s4 h) = 1" using tracked_absent[OF t4 rm(2)] .
  have c10: "before_send = [] \<and> before_abandon = [] \<longrightarrow>
          \<not> ready ?s4 \<and> connection ?s4 = disconnected \<and> wire ?s4 = wire s
          \<and> pending ?s4 = filter (\<lambda>p. fst p \<noteq> req_id) (pending s)
          \<and> promises ?s4 h = [Exception (Exn cancelled ''Request cancelled'')]
          \<and> (\<forall>h'. h' \<noteq> h \<longrightarrow> promises ?s4 h' = promises s h')"
  proof
    assume n: "before_send = [] \<and> before_abandon = []"
    have e1: "s1 = ?s0" using assms(2) n by (simp add: steps_def)
    have e3: "s3 = ?s0\<lparr>ready := False, connection := disconnected\<rparr>"
      using s3 n e1 by (simp add: steps_def)
    have fields: "promises ?s0 = promises s" "wire ?s0 = wire s"
      using register_request_fields[of dl req_id s] by blast+
    obtain e where e: "map_of (pending ?s0) req_id = Some e" "pr_result e = h"
      using register_request_entry(1)[OF assms(1), of dl req_id] assms(5) by auto
    have flt: "filter (\<lambda>p. fst p \<noteq> req_id) (pending ?s0) = filter (\<lambda>p. fst p \<noteq> req_id) (pending s)"
      by (rule register_request_entry(2)[OF assms(1)])
    have unres: "promises s h = []"
      using register_request_entry(4)[OF assms(1), of dl req_id] assms(5) by simp
    have e2: "map_of (pending s3) req_id = Some e" using e(1) e3 by simp
    have p3: "pending s3 = pending ?s0" "promises s3 = promises ?s0" "wire s3 = wire ?s0"
      "\<not> ready s3" "connection s3 = disconnected"
      using e3 by simp_all
    show "\<not> ready ?s4 \<and> connection ?s4 = disconnected \<and> wire ?s4 = wire s
          \<and> pending ?s4 = filter (\<lambda>p. fst p \<noteq> req_id) (pending s)
          \<and> promises ?s4 h = [Exception (Exn cancelled ''Request cancelled'')]
          \<and> (\<forall>h'. h' \<noteq> h \<longrightarrow> promises ?s4 h' = promises s h')"
      unfolding abandon_request_present[OF f3 e2]
      using e(2) flt unres fields p3 by (simp add: set_exception_def)
  qed
  show ?thesis using c1 snd_eq rm c5 c6 c7 c8 i4 c10 by blast
qed


text \<open>
  The first request of a new connection, on a network that fails to send, no other
  thread running; and a fourth request after the three calls, the receiver finding the
  connection reset between the failed send and \<^verbatim>\<open>abandon_request\<close>: the four promises
  hold the receiver's exception and \<^verbatim>\<open>abandon_request\<close> finds no entry.
\<close>

theorem send_request_io_error_witness:
  "pending_inv (new_client_connection 256)
   \<and> send_exception broken_pipe
        (steps tag_in_order [] (snd (register_request (Some 10) 0 (new_client_connection 256))))
       = Some (Exn io_error ''Broken pipe'')
   \<and> fst (send_request tag_in_order (Some 10) broken_pipe 0 [0, 0, 0, 0, 0] [] []
            (new_client_connection 256))
       = Inl (Exn io_error ''Broken pipe'')
   \<and> connection (snd (send_request tag_in_order (Some 10) broken_pipe 0 [0, 0, 0, 0, 0] [] []
            (new_client_connection 256)))
       = disconnected
   \<and> pending (snd (send_request tag_in_order (Some 10) broken_pipe 0 [0, 0, 0, 0, 0] [] []
            (new_client_connection 256)))
       = []
   \<and> promises (snd (send_request tag_in_order (Some 10) broken_pipe 0 [0, 0, 0, 0, 0] [] []
            (new_client_connection 256))) 0
       = [Exception (Exn cancelled ''Request cancelled'')]
   \<and> promises (steps tag_in_order []
        (snd (send broken_pipe [0, 0, 0, 0, 0]
           (steps tag_in_order [] (snd (register_request (Some 10) 0 (new_client_connection 256))))))) 0
       = []
   \<and> pending_inv three_calls
   \<and> send_exception broken_pipe
        (steps tag_in_order [] (snd (register_request None 3 three_calls)))
       = Some (Exn io_error ''Broken pipe'')
   \<and> fst (send_request tag_in_order None broken_pipe 3 [0, 3, 0, 0, 0, 4] [] connection_reset
            three_calls)
       = Inl (Exn io_error ''Broken pipe'')
   \<and> pending (snd (send_request tag_in_order None broken_pipe 3 [0, 3, 0, 0, 0, 4] []
            connection_reset three_calls))
       = []
   \<and> map (promises (snd (send_request tag_in_order None broken_pipe 3 [0, 3, 0, 0, 0, 4] []
            connection_reset three_calls))) [0, 1, 2, 3, 4]
       = [[Exception (Exn io_error ''Connection reset'')],
          [Exception (Exn io_error ''Connection reset'')],
          [Exception (Exn io_error ''Connection reset'')],
          [Exception (Exn io_error ''Connection reset'')], []]
   \<and> map_of (pending (steps tag_in_order connection_reset
        (snd (send broken_pipe [0, 3, 0, 0, 0, 4]
           (steps tag_in_order [] (snd (register_request None 3 three_calls))))))) 3
       = None
   \<and> promises (steps tag_in_order connection_reset
        (snd (send broken_pipe [0, 3, 0, 0, 0, 4]
           (steps tag_in_order [] (snd (register_request None 3 three_calls)))))) 3
       = [Exception (Exn io_error ''Connection reset'')]"
proof -
  let ?a = "send_request tag_in_order (Some 10) broken_pipe 0 [0, 0, 0, 0, 0] [] []
              (new_client_connection 256)"
  let ?b = "send_request tag_in_order None broken_pipe 3 [0, 3, 0, 0, 0, 4] [] connection_reset
              three_calls"
  have e1: "send_exception broken_pipe
        (steps tag_in_order [] (snd (register_request (Some 10) 0 (new_client_connection 256))))
       = Some (Exn io_error ''Broken pipe'')"
    by (simp add: send_exception_def broken_pipe_def steps_def)
  have e2: "send_exception broken_pipe
        (steps tag_in_order [] (snd (register_request None 3 three_calls)))
       = Some (Exn io_error ''Broken pipe'')"
    by (simp add: send_exception_def broken_pipe_def steps_def)
  have a1: "fst ?a = Inl (Exn io_error ''Broken pipe'')"
    using send_request_io_error[OF new_client_connection_inv refl e1 refl refl,
        of "[0, 0, 0, 0, 0]" "[]"]
    by simp
  have b1: "fst ?b = Inl (Exn io_error ''Broken pipe'')"
    using send_request_io_error[OF three_calls_inv refl e2 refl refl,
        of "[0, 3, 0, 0, 0, 4]" connection_reset]
    by simp
  have a2: "connection (snd ?a) = disconnected" "pending (snd ?a) = []"
    "promises (snd ?a) 0 = [Exception (Exn cancelled ''Request cancelled'')]"
    by (simp_all add: engine_eval broken_pipe_def abandon_request_def set_exception_def)
  have b2: "pending (snd ?b) = []"
    "map (promises (snd ?b)) [0, 1, 2, 3, 4]
       = [[Exception (Exn io_error ''Connection reset'')],
          [Exception (Exn io_error ''Connection reset'')],
          [Exception (Exn io_error ''Connection reset'')],
          [Exception (Exn io_error ''Connection reset'')], []]"
    by (simp_all add: three_calls_eq engine_eval broken_pipe_def abandon_request_def
        set_exception_def connection_reset_def receive_step_def broadcast_exception_def
        connection_disconnect_def)
  have a3: "promises (steps tag_in_order []
        (snd (send broken_pipe [0, 0, 0, 0, 0]
           (steps tag_in_order [] (snd (register_request (Some 10) 0 (new_client_connection 256))))))) 0
       = []"
    by (simp add: engine_eval broken_pipe_def)
  have b3: "map_of (pending (steps tag_in_order connection_reset
        (snd (send broken_pipe [0, 3, 0, 0, 0, 4]
           (steps tag_in_order [] (snd (register_request None 3 three_calls))))))) 3
       = None"
    "promises (steps tag_in_order connection_reset
        (snd (send broken_pipe [0, 3, 0, 0, 0, 4]
           (steps tag_in_order [] (snd (register_request None 3 three_calls)))))) 3
       = [Exception (Exn io_error ''Connection reset'')]"
    by (simp_all add: three_calls_eq engine_eval broken_pipe_def set_exception_def
        connection_reset_def receive_step_def broadcast_exception_def connection_disconnect_def)
  show ?thesis
    using new_client_connection_inv[of 256] three_calls_inv e1 e2 a1 a2 a3 b1 b2 b3 by simp
qed

text \<open>
  Claim C1 as stated fails on the kind of the failure: the caller gets the I/O error,
  but the promise of the request is resolved with a \<^verbatim>\<open>cancelled\<close> exception, not with
  one of kind \<^verbatim>\<open>io_error\<close>.
\<close>

theorem send_request_io_error_kind:
  "fst (send_request tag_in_order (Some 10) broken_pipe 0 [0, 0, 0, 0, 0] [] []
          (new_client_connection 256))
     = Inl (Exn io_error ''Broken pipe'')
   \<and> future_result
        (promises (snd (send_request tag_in_order (Some 10) broken_pipe 0 [0, 0, 0, 0, 0] [] []
                          (new_client_connection 256))))
        0
       = Some (Exception (Exn cancelled ''Request cancelled''))
   \<and> map_option failure_kind (future_result
        (promises (snd (send_request tag_in_order (Some 10) broken_pipe 0 [0, 0, 0, 0, 0] [] []
                          (new_client_connection 256))))
        0)
       \<noteq> Some (Some io_error)"
  by (simp add: engine_eval broken_pipe_def abandon_request_def set_exception_def
      future_result_def failure_kind_def)









end
